theory Spec2Isabelle
  imports Complex_Main "HOL-Library.Word"
begin

unbundle bit_operations_syntax

section \<open>Data model\<close>

text \<open>
  The program is \<^verbatim>\<open>script.js\<close>. Its buffers are typed arrays of unsigned 8-bit
  values (\<^verbatim>\<open>Uint8Array\<close> for the file, \<^verbatim>\<open>Uint8ClampedArray\<close> for the pixel samples),
  modelled as lists of 8-bit words. Reading a typed array outside its range gives
  \<^verbatim>\<open>undefined\<close>, which is \<open>None\<close> here.
\<close>

type_synonym byte = "8 word"

definition byteAt :: "byte list \<Rightarrow> nat \<Rightarrow> byte option" where
  "byteAt v i = (if i < length v then Some (v ! i) else None)"

text \<open>
  A JavaScript number is a binary64 floating-point value: a real number that the format
  represents, or one of the three special values of the arithmetic. The sign of zero is
  not modelled.
\<close>

datatype number = Fin real | PosInf | NegInf | NaN

subsection \<open>Rounding to binary64\<close>

text \<open>
  An arithmetic operation of the language returns the exact result rounded to the nearest
  value of the format, a tie going to the even significand. A value of the format is an
  integer of at most 53 bits times a power of two; the exponent of its last bit is that
  of the value minus 52, and not below \<open>-1074\<close>. The largest finite value is not modelled
  (no overflow): the operands of the program are counts, quotients between 0 and 1, and
  their products with 100 or with a logarithm.
\<close>

definition roundEven :: "real \<Rightarrow> int" where
  "roundEven y =
     (let f = \<lfloor>y\<rfloor>; d = y - of_int f
      in if d < 1 / 2 then f else if 1 / 2 < d then f + 1 else if even f then f else f + 1)"

definition pow2 :: "int \<Rightarrow> real" where
  "pow2 e = (if 0 \<le> e then 2 ^ nat e else 1 / 2 ^ nat (- e))"

definition expo :: "real \<Rightarrow> int" where
  "expo x = max \<lfloor>log 2 \<bar>x\<bar>\<rfloor> (- 1022)"

definition fl :: "real \<Rightarrow> real" where
  "fl x = (if x = 0 then 0
           else of_int (roundEven (x / pow2 (expo x - 52))) * pow2 (expo x - 52))"

fun rnd :: "number \<Rightarrow> number" where
  "rnd (Fin a) = Fin (fl a)"
| "rnd x = x"

subsection \<open>Arithmetic\<close>

text \<open>The exact operations on numbers; the operation of the language is the exact one
  followed by \<open>rnd\<close>.\<close>

fun num_div :: "number \<Rightarrow> number \<Rightarrow> number" where
  "num_div NaN y = NaN"
| "num_div x NaN = NaN"
| "num_div (Fin a) (Fin b) =
     (if b \<noteq> 0 then Fin (a / b)
      else if a = 0 then NaN
      else if 0 < a then PosInf else NegInf)"
| "num_div (Fin a) y = Fin 0"
| "num_div PosInf (Fin b) = (if 0 \<le> b then PosInf else NegInf)"
| "num_div NegInf (Fin b) = (if 0 \<le> b then NegInf else PosInf)"
| "num_div x y = NaN"

fun num_add :: "number \<Rightarrow> number \<Rightarrow> number" where
  "num_add NaN y = NaN"
| "num_add x NaN = NaN"
| "num_add (Fin a) (Fin b) = Fin (a + b)"
| "num_add PosInf NegInf = NaN"
| "num_add NegInf PosInf = NaN"
| "num_add (Fin a) y = y"
| "num_add x y = x"

fun num_neg :: "number \<Rightarrow> number" where
  "num_neg (Fin a) = Fin (- a)"
| "num_neg PosInf = NegInf"
| "num_neg NegInf = PosInf"
| "num_neg NaN = NaN"

definition num_sub :: "number \<Rightarrow> number \<Rightarrow> number" where
  "num_sub x y = num_add x (num_neg y)"

fun num_mul :: "number \<Rightarrow> number \<Rightarrow> number" where
  "num_mul NaN y = NaN"
| "num_mul x NaN = NaN"
| "num_mul (Fin a) (Fin b) = Fin (a * b)"
| "num_mul (Fin a) PosInf = (if a = 0 then NaN else if 0 < a then PosInf else NegInf)"
| "num_mul (Fin a) NegInf = (if a = 0 then NaN else if 0 < a then NegInf else PosInf)"
| "num_mul PosInf (Fin b) = (if b = 0 then NaN else if 0 < b then PosInf else NegInf)"
| "num_mul NegInf (Fin b) = (if b = 0 then NaN else if 0 < b then NegInf else PosInf)"
| "num_mul PosInf PosInf = PosInf"
| "num_mul NegInf NegInf = PosInf"
| "num_mul x y = NegInf"

text \<open>\<^verbatim>\<open>Math.abs\<close>, \<^verbatim>\<open>Math.round\<close> (to the nearest integer, a tie goes up) and
  \<^verbatim>\<open>Math.min\<close> (which is \<^verbatim>\<open>NaN\<close> as soon as an argument is).\<close>

fun Math_abs :: "number \<Rightarrow> number" where
  "Math_abs (Fin a) = Fin \<bar>a\<bar>"
| "Math_abs NaN = NaN"
| "Math_abs x = PosInf"

fun Math_round :: "number \<Rightarrow> number" where
  "Math_round (Fin a) = Fin (of_int \<lfloor>a + 1 / 2\<rfloor>)"
| "Math_round x = x"

fun Math_min :: "number \<Rightarrow> number \<Rightarrow> number" where
  "Math_min NaN y = NaN"
| "Math_min x NaN = NaN"
| "Math_min (Fin a) (Fin b) = Fin (min a b)"
| "Math_min NegInf y = NegInf"
| "Math_min x NegInf = NegInf"
| "Math_min PosInf y = y"
| "Math_min x PosInf = x"

text \<open>The comparison \<^verbatim>\<open>x >= y\<close>: false as soon as an operand is \<^verbatim>\<open>NaN\<close>.\<close>

fun num_ge :: "number \<Rightarrow> number \<Rightarrow> bool" where
  "num_ge NaN y = False"
| "num_ge x NaN = False"
| "num_ge (Fin a) (Fin b) = (b \<le> a)"
| "num_ge PosInf y = True"
| "num_ge x NegInf = True"
| "num_ge x y = False"


subsection \<open>Numbers in template strings\<close>

text \<open>A count in a template string is written in decimal.\<close>

function showNat :: "nat \<Rightarrow> string" where
  "showNat n = (if n < 10 then [''0123456789'' ! n]
                else showNat (n div 10) @ [''0123456789'' ! (n mod 10)])"
  by pat_completeness auto
termination
  by (relation "measure id") auto

declare showNat.simps [simp del]

text \<open>
  \<^verbatim>\<open>x.toFixed(d)\<close>: the integer \<open>n\<close> for which \<open>n / 10^d\<close> is nearest to \<open>\<bar>x\<bar>\<close> (the
  larger one at a tie), written with \<open>d\<close> digits after the point, and a minus sign
  before it when \<open>x < 0\<close>. The exponent form that the source language uses from
  \<open>10^21\<close> on is not modelled: the arguments of the program are at most 100.
\<close>

definition padZeros :: "nat \<Rightarrow> string \<Rightarrow> string" where
  "padZeros k s = replicate (k - length s) (CHR ''0'') @ s"

definition fixedDigits :: "nat \<Rightarrow> real \<Rightarrow> string" where
  "fixedDigits d x =
     (let n = nat \<lfloor>\<bar>x\<bar> * 10 ^ d + 1 / 2\<rfloor>;
          m = padZeros (d + 1) (showNat n);
          k = length m - d
      in (if x < 0 then ''-'' else '''') @
         (if d = 0 then m else take k m @ ''.'' @ drop k m))"

fun toFixed :: "nat \<Rightarrow> number \<Rightarrow> string" where
  "toFixed d (Fin x) = fixedDigits d x"
| "toFixed d PosInf = ''Infinity''"
| "toFixed d NegInf = ''-Infinity''"
| "toFixed d NaN = ''NaN''"

subsection \<open>Results\<close>

record SubScore =
  score :: number
  summary :: string

record AnalysisResult =
  level :: string
  total :: number
  message :: string
  tailSummary :: string
  lsbSummary :: string

record ImageData =
  width :: nat
  height :: nat
  data :: "byte list"

section \<open>Signature scanner\<close>

definition sigs :: "(string \<times> byte list) list" where
  "sigs = [(''ZIP'', [0x50, 0x4B, 0x03, 0x04]),
           (''APK'', [0x50, 0x4B, 0x03, 0x04]),
           (''PDF'', [0x25, 0x50, 0x44, 0x46]),
           (''RAR'', [0x52, 0x61, 0x72, 0x21]),
           (''EXE'', [0x4D, 0x5A])]"

text \<open>The innermost loop: the bytes of one entry against the data from index \<open>k\<close> on,
  stopping at the first difference.\<close>

fun matchFrom :: "byte list \<Rightarrow> nat \<Rightarrow> byte list \<Rightarrow> bool" where
  "matchFrom d k [] = True"
| "matchFrom d k (b # bs) = (if byteAt d k \<noteq> Some b then False else matchFrom d (k + 1) bs)"

text \<open>The loop over the table at one offset: the name of the first entry that matches.\<close>

fun firstSig :: "(string \<times> byte list) list \<Rightarrow> byte list \<Rightarrow> nat \<Rightarrow> string option" where
  "firstSig [] d i = None"
| "firstSig ((name, bs) # rest) d i =
     (if matchFrom d i bs then Some name else firstSig rest d i)"

text \<open>The outer loop, \<^verbatim>\<open>for (let i = 0; i < data.length - 8; i++)\<close>.\<close>

function scanFrom :: "byte list \<Rightarrow> nat \<Rightarrow> string option" where
  "scanFrom d i =
     (if int i < int (length d) - 8
      then (case firstSig sigs d i of Some name \<Rightarrow> Some name | None \<Rightarrow> scanFrom d (i + 1))
      else None)"
  by pat_completeness auto
termination
  by (relation "measure (\<lambda>(d, i). length d - i)") auto

declare scanFrom.simps [simp del]

definition findSignature :: "byte list \<Rightarrow> string option" where
  "findSignature d = scanFrom d 0"

section \<open>Byte statistics\<close>

text \<open>\<^verbatim>\<open>for (let b of data) if (b >= 32 && b <= 126) count++\<close>\<close>

fun countPrintable :: "byte list \<Rightarrow> nat \<Rightarrow> nat" where
  "countPrintable [] count = count"
| "countPrintable (b # bs) count =
     countPrintable bs (if 32 \<le> b \<and> b \<le> 126 then count + 1 else count)"

text \<open>The counter and the length are integers below \<open>2^53\<close> and exact; their quotient
  is rounded.\<close>

definition printableFraction :: "byte list \<Rightarrow> real" where
  "printableFraction d =
     (if length d \<noteq> 0 then fl (real (countPrintable d 0) / real (length d)) else 0)"

text \<open>The frequency table, \<^verbatim>\<open>new Array(256).fill(0)\<close> with \<^verbatim>\<open>freq[b]++\<close> for each byte.\<close>

fun countBytes :: "byte list \<Rightarrow> nat list \<Rightarrow> nat list" where
  "countBytes [] freq = freq"
| "countBytes (b # bs) freq = countBytes bs (freq[unat b := freq ! unat b + 1])"

text \<open>
  \<^verbatim>\<open>for (let c of freq) if (c) { const p = c / n; H -= p * Math.log2(p); }\<close>

  The quotient, the product and the difference are rounded. The result of
  \<^verbatim>\<open>Math.log2\<close> is an approximation that the language standard leaves to the
  implementation: it is the parameter \<open>lg\<close> of the model, the function from the argument
  to the value that the implementation returns.
\<close>

fun entropySum :: "(real \<Rightarrow> real) \<Rightarrow> nat list \<Rightarrow> real \<Rightarrow> real \<Rightarrow> real" where
  "entropySum lg [] n H = H"
| "entropySum lg (c # cs) n H =
     entropySum lg cs n
       (if c \<noteq> 0 then (let p = fl (real c / n) in fl (H - fl (p * lg p))) else H)"

definition shannonEntropy :: "(real \<Rightarrow> real) \<Rightarrow> byte list \<Rightarrow> real" where
  "shannonEntropy lg bytes =
     (let freq = countBytes bytes (replicate 256 0);
          n = (if length bytes \<noteq> 0 then real (length bytes) else 1)
      in entropySum lg freq n 0)"

section \<open>Tail analyser\<close>

text \<open>
  The two thresholds are compared as exact numbers. \<open>6.5\<close> is a value of the format. The
  literal \<open>0.3\<close> of the source is the value of the format next below \<open>3 / 10\<close>, and no value
  of the format lies between the two, so a value of the format is above the one exactly
  when it is above the other (\<open>above_literal_0_3\<close> below).
\<close>

definition analyzeTail :: "(real \<Rightarrow> real) \<Rightarrow> byte list \<Rightarrow> SubScore" where
  "analyzeTail lg tail =
     (if length tail = 0
      then \<lparr>score = Fin 0, summary = ''No extra data found after image end.''\<rparr>
      else
        let printable = printableFraction tail;
            entropy = shannonEntropy lg tail;
            sig = findSignature tail;
            s0 = (0::real);
            s1 = (if length tail > 100 then s0 + 25 else s0);
            s2 = (if printable > 0.3 then s1 + 25 else s1);
            s3 = (if entropy > 6.5 then s2 + 25 else s2);
            s4 = (if sig \<noteq> None then s3 + 30 else s3)
        in \<lparr>score = Math_min (Fin 100) (Fin s4),
            summary = ''Tail length: '' @ showNat (length tail) @ '' bytes, printable '' @
              toFixed 1 (Fin (fl (printable * 100))) @ ''%, entropy '' @
              toFixed 2 (Fin entropy) @
              '', '' @ (case sig of Some name \<Rightarrow> ''found signature '' @ name
                                  | None \<Rightarrow> ''no known signature'') @ ''.''\<rparr>)"

text \<open>
  The two backward scans of \<^verbatim>\<open>analyzeImage\<close> for the end of the image: the marker
  \<^verbatim>\<open>FF D9\<close> of a JPEG from index \<open>length - 2\<close> down, and the tag \<^verbatim>\<open>IEND\<close> of a PNG,
  four bytes into its chunk, from index \<open>length - 12\<close> down. Both leave \<open>-1\<close> when the
  loop ends without a match.
\<close>

function jpgScan :: "byte list \<Rightarrow> int \<Rightarrow> int" where
  "jpgScan view i =
     (if i \<ge> 0
      then (if byteAt view (nat i) = Some 0xFF \<and> byteAt view (nat (i + 1)) = Some 0xD9
            then i + 2 else jpgScan view (i - 1))
      else -1)"
  by pat_completeness auto
termination
  by (relation "measure (\<lambda>(view, i). nat (i + 1))") auto

declare jpgScan.simps [simp del]

function pngScan :: "byte list \<Rightarrow> int \<Rightarrow> int" where
  "pngScan view i =
     (if i \<ge> 0
      then (if byteAt view (nat (i + 4)) = Some 0x49 \<and> byteAt view (nat (i + 5)) = Some 0x45 \<and>
               byteAt view (nat (i + 6)) = Some 0x4E \<and> byteAt view (nat (i + 7)) = Some 0x44
            then i + 12 else pngScan view (i - 1))
      else -1)"
  by pat_completeness auto
termination
  by (relation "measure (\<lambda>(view, i). nat (i + 1))") auto

declare pngScan.simps [simp del]

definition isPNG :: "byte list \<Rightarrow> bool" where
  "isPNG view \<longleftrightarrow> byteAt view 0 = Some 0x89 \<and> byteAt view 1 = Some 0x50 \<and>
     byteAt view 2 = Some 0x4E \<and> byteAt view 3 = Some 0x47"

definition isJPG :: "byte list \<Rightarrow> bool" where
  "isJPG view \<longleftrightarrow> byteAt view 0 = Some 0xFF \<and> byteAt view 1 = Some 0xD8 \<and>
     byteAt view 2 = Some 0xFF"

definition eofIndex :: "byte list \<Rightarrow> int" where
  "eofIndex view =
     (if isJPG view then jpgScan view (int (length view) - 2)
      else if isPNG view then pngScan view (int (length view) - 12)
      else -1)"

text \<open>\<^verbatim>\<open>view.slice(eofIndex)\<close> under the guard \<^verbatim>\<open>eofIndex > 0 && eofIndex < view.length\<close>.\<close>

definition tailRegion :: "byte list \<Rightarrow> byte list" where
  "tailRegion view =
     (let e = eofIndex view
      in if e > 0 \<and> e < int (length view) then drop (nat e) view else [])"

section \<open>Pixel analyser\<close>

text \<open>\<^verbatim>\<open>(data[i + j] & 1) ? lsb1++ : lsb0++\<close>: a sample outside the array reads as
  \<^verbatim>\<open>undefined\<close>, whose bitwise conjunction with 1 is 0.\<close>

definition lsbSet :: "byte list \<Rightarrow> nat \<Rightarrow> bool" where
  "lsbSet d k = (case byteAt d k of Some b \<Rightarrow> b AND 1 \<noteq> 0 | None \<Rightarrow> False)"

fun lsbInner :: "byte list \<Rightarrow> nat \<Rightarrow> nat list \<Rightarrow> nat \<times> nat \<Rightarrow> nat \<times> nat" where
  "lsbInner d i [] (lsb0, lsb1) = (lsb0, lsb1)"
| "lsbInner d i (j # js) (lsb0, lsb1) =
     lsbInner d i js (if lsbSet d (i + j) then (lsb0, lsb1 + 1) else (lsb0 + 1, lsb1))"

function lsbLoop :: "byte list \<Rightarrow> nat \<Rightarrow> nat \<times> nat \<Rightarrow> nat \<times> nat" where
  "lsbLoop d i c = (if i < length d then lsbLoop d (i + 4) (lsbInner d i [0, 1, 2] c) else c)"
  by pat_completeness auto
termination
  by (relation "measure (\<lambda>(d, i, c). length d - i)") auto

declare lsbLoop.simps [simp del]

definition lsbCounts :: "byte list \<Rightarrow> nat \<times> nat" where
  "lsbCounts d = lsbLoop d 0 (0, 0)"

text \<open>The two counters are integers below \<open>2^53\<close>: they, their sum and their difference
  are exact. The quotient, the difference from 1 and the product with 100 are rounded.\<close>

definition analyzeLSB :: "ImageData \<Rightarrow> SubScore" where
  "analyzeLSB imageData =
     (let (lsb0, lsb1) = lsbCounts (data imageData);
          total = lsb0 + lsb1;
          balance = rnd (num_div (Math_abs (Fin (real lsb0 - real lsb1))) (Fin (real total)));
          evenness = rnd (num_sub (Fin 1) balance)
      in \<lparr>score = Math_min (Fin 100) (Math_round (rnd (num_mul evenness (Fin 100)))),
          summary = ''LSB balance: '' @ toFixed 2 evenness @ '', 0s='' @ showNat lsb0 @
            '', 1s='' @ showNat lsb1 @ ''.''\<rparr>)"

section \<open>Score aggregator\<close>

text \<open>The last part of \<^verbatim>\<open>analyzeImage\<close>, from the two sub-scores to the result. The
  messages start with a pictograph, given here by the bytes of its UTF-8 encoding.

  The weighted sum is taken exactly. The sub-scores of the program are integers from 0
  to 100; for them the exact sum is a multiple of \<open>1 / 5\<close>, at least \<open>1 / 10\<close> away from
  every tie of \<^verbatim>\<open>Math.round\<close>, and the sum of the rounded products differs from it by
  less than \<open>10^-12\<close>: both are rounded to the same integer (\<open>aggregate_binary64\<close>
  below).\<close>

definition msgSafe :: string where
  "msgSafe = [CHR 0xE2, CHR 0x9C, CHR 0x85] @ '' Image appears safe.''"

definition msgAlert :: string where
  "msgAlert = [CHR 0xF0, CHR 0x9F, CHR 0x9A, CHR 0xA8] @
     '' ALERT: Suspicious hidden data likely present!''"

definition msgWarn :: string where
  "msgWarn = [CHR 0xE2, CHR 0x9A, CHR 0xA0, CHR 0xEF, CHR 0xB8, CHR 0x8F] @
     '' Warning: Possible hidden content detected.''"

definition aggregate :: "SubScore \<Rightarrow> SubScore \<Rightarrow> AnalysisResult" where
  "aggregate tailInfo lsbInfo =
     (let sc = Math_min (Fin 100)
                 (Math_round (num_add (num_mul (score tailInfo) (Fin (6 / 10)))
                                      (num_mul (score lsbInfo) (Fin (4 / 10)))));
          (msg, lvl) = (if num_ge sc (Fin 60) then (msgAlert, ''alert'')
                        else if num_ge sc (Fin 30) then (msgWarn, ''warn'')
                        else (msgSafe, ''safe''))
      in \<lparr>level = lvl, total = sc, message = msg,
          tailSummary = summary tailInfo, lsbSummary = summary lsbInfo\<rparr>)"

section \<open>Decoder and entry point\<close>

text \<open>
  \<^verbatim>\<open>analyzeImage\<close> decodes the pixel grid itself: \<^verbatim>\<open>readDataURL\<close> and
  \<^verbatim>\<open>loadImage\<close> give an image element or fail, and \<^verbatim>\<open>getImageData\<close> draws the
  image on a canvas, scaled down to about a million pixels, and reads the canvas back. What
  the browser decides is a parameter: whether the image loads, its width and height,
  and the samples that drawing it on a canvas of a given size leaves there.
\<close>

datatype error = ReadError | DecodeError | IndexSizeError

record Image =
  imgWidth :: nat
  imgHeight :: nat
  rendered :: "nat \<Rightarrow> nat \<Rightarrow> nat \<Rightarrow> byte"




section \<open>Notions of the specification and example inputs\<close>

text \<open>The byte pattern \<open>pat\<close> stands in the buffer \<open>d\<close> from offset \<open>i\<close> on.\<close>

definition occursAt :: "byte list \<Rightarrow> byte list \<Rightarrow> nat \<Rightarrow> bool" where
  "occursAt pat d i \<longleftrightarrow> take (length pat) (drop i d) = pat"

text \<open>Ten zero bytes and the ZIP magic number, followed by four and by five more zero
  bytes.\<close>

definition zip18 :: "byte list" where
  "zip18 = replicate 10 0 @ [0x50, 0x4B, 0x03, 0x04] @ replicate 4 0"

definition zip19 :: "byte list" where
  "zip19 = replicate 10 0 @ [0x50, 0x4B, 0x03, 0x04] @ replicate 5 0"


definition gridA :: ImageData where
  "gridA = \<lparr>width = 2, height = 1, data = [1, 2, 3, 255, 4, 5, 6, 255]\<rparr>"

definition gridB :: ImageData where
  "gridB = \<lparr>width = 1, height = 2, data = [0xF1, 0x80, 0x0B, 0, 0x7E, 0x33, 0xAA, 1]\<rparr>"

text \<open>A grid of 80 pixels with 231 samples of lowest bit 0 and 9 of lowest bit 1.\<close>

definition skewGrid :: ImageData where
  "skewGrid = \<lparr>width = 80, height = 1,
     data = concat (replicate 77 [0, 0, 0, 0]) @ concat (replicate 3 [1, 1, 1, 0])\<rparr>"


text \<open>A sub-score record with a finite score.\<close>

definition sub :: "real \<Rightarrow> string \<Rightarrow> SubScore" where
  "sub x s = \<lparr>score = Fin x, summary = s\<rparr>"

text \<open>The end marker of a JPEG, the tag of the last chunk of a PNG, and a small JPEG
  followed by two more bytes.\<close>

definition eoiMarker :: "byte list" where
  "eoiMarker = [0xFF, 0xD9]"

definition iendTag :: "byte list" where
  "iendTag = [0x49, 0x45, 0x4E, 0x44]"

definition jpegWithTail :: "byte list" where
  "jpegWithTail = [0xFF, 0xD8, 0xFF, 0xE0, 0x00, 0xFF, 0xD9, 0x68, 0x69]"

text \<open>A PNG of one pixel: the signature, an IHDR chunk and an IDAT chunk (the body), and
  the IEND chunk.\<close>

definition pngSignature :: "byte list" where
  "pngSignature = [0x89, 0x50, 0x4E, 0x47, 0x0D, 0x0A, 0x1A, 0x0A]"

definition iendChunk :: "byte list" where
  "iendChunk = [0x00, 0x00, 0x00, 0x00, 0x49, 0x45, 0x4E, 0x44, 0xAE, 0x42, 0x60, 0x82]"

definition minimalBody :: "byte list" where
  "minimalBody =
     [0x00, 0x00, 0x00, 0x0D, 0x49, 0x48, 0x44, 0x52, 0x00, 0x00, 0x00, 0x01, 0x00, 0x00, 0x00, 0x01,
      0x08, 0x06, 0x00, 0x00, 0x00, 0x1F, 0x15, 0xC4, 0x89,
      0x00, 0x00, 0x00, 0x0A, 0x49, 0x44, 0x41, 0x54, 0x78, 0x9C, 0x63, 0x00, 0x01, 0x00, 0x00,
      0x05, 0x00, 0x01, 0x0D, 0x0A, 0x2D, 0xB4]"

definition minimalPNG :: "byte list" where
  "minimalPNG = pngSignature @ minimalBody @ iendChunk"

text \<open>200 printable bytes that hold the tag IEND from offset 192 on.\<close>

definition hiddenIEND :: "byte list" where
  "hiddenIEND = replicate 192 0x41 @ [0x49, 0x45, 0x4E, 0x44] @ replicate 4 0x41"

section \<open>The signature scanner, verified\<close>

lemma matchFrom_occursAt: "matchFrom d k bs \<longleftrightarrow> occursAt bs d k"
proof (induction bs arbitrary: k)
  case Nil
  show ?case by (simp add: occursAt_def)
next
  case (Cons b bs)
  show ?case
  proof (cases "k < length d")
    case True
    then have "drop k d = d ! k # drop (Suc k) d"
      by (simp add: Cons_nth_drop_Suc)
    with True Cons show ?thesis
      by (auto simp: occursAt_def byteAt_def)
  next
    case False
    then show ?thesis by (simp add: occursAt_def byteAt_def)
  qed
qed

lemma firstSig_None: "firstSig tbl d i = None \<longleftrightarrow> (\<forall>s\<in>set tbl. \<not> matchFrom d i (snd s))"
  by (induction tbl d i rule: firstSig.induct) auto

lemma firstSig_sigs_names:
  "firstSig sigs d i \<in> {None, Some ''ZIP'', Some ''PDF'', Some ''RAR'', Some ''EXE''}"
  by (simp add: sigs_def)

lemma firstSig_zip: "matchFrom d i [0x50, 0x4B, 0x03, 0x04] \<Longrightarrow> firstSig sigs d i = Some ''ZIP''"
  by (simp add: sigs_def del: matchFrom.simps)

lemma scanFrom_names:
  "scanFrom d i \<in> {None, Some ''ZIP'', Some ''PDF'', Some ''RAR'', Some ''EXE''}"
proof (induction d i rule: scanFrom.induct)
  case (1 d i)
  show ?case
  proof (cases "int i < int (length d) - 8")
    case False
    then show ?thesis by (simp add: scanFrom.simps [of d i])
  next
    case True
    show ?thesis
    proof (cases "firstSig sigs d i")
      case None
      with True 1 show ?thesis by (simp add: scanFrom.simps [of d i])
    next
      case (Some name)
      with True firstSig_sigs_names [of d i] show ?thesis
        by (simp add: scanFrom.simps [of d i])
    qed
  qed
qed

lemma scanFrom_None:
  "(\<forall>j. i \<le> j \<and> int j < int (length d) - 8 \<longrightarrow> firstSig sigs d j = None)
   \<Longrightarrow> scanFrom d i = None"
proof (induction d i rule: scanFrom.induct)
  case (1 d i)
  show ?case
  proof (cases "int i < int (length d) - 8")
    case False
    then show ?thesis by (simp add: scanFrom.simps [of d i])
  next
    case True
    have n: "firstSig sigs d i = None" using True "1.prems" by simp
    have "scanFrom d (i + 1) = None"
      using True n "1.prems" by (intro "1.IH") auto
    with True n show ?thesis by (simp add: scanFrom.simps [of d i])
  qed
qed

lemma scanFrom_first:
  "i \<le> k \<Longrightarrow> int k < int (length d) - 8 \<Longrightarrow> (\<forall>j. i \<le> j \<and> j < k \<longrightarrow> firstSig sigs d j = None)
   \<Longrightarrow> firstSig sigs d k = Some name \<Longrightarrow> scanFrom d i = Some name"
proof (induction d i rule: scanFrom.induct)
  case (1 d i)
  have r: "int i < int (length d) - 8" using "1.prems" by simp
  show ?case
  proof (cases "i = k")
    case True
    with r "1.prems" show ?thesis by (simp add: scanFrom.simps [of d k])
  next
    case False
    then have lt: "i < k" using "1.prems" by simp
    then have n: "firstSig sigs d i = None" using "1.prems" by simp
    have "scanFrom d (i + 1) = Some name"
      using r n lt "1.prems" by (intro "1.IH") auto
    with r n show ?thesis by (simp add: scanFrom.simps [of d i])
  qed
qed

text \<open>
  Claim C9. Whatever the input, \<open>findSignature\<close> returns nothing or one of the names
  ZIP, PDF, RAR and EXE, and never APK: the APK entry has the bytes of the ZIP entry,
  which stands before it in the table.
\<close>

theorem findSignature_never_APK:
  "findSignature d \<in> {None, Some ''ZIP'', Some ''PDF'', Some ''RAR'', Some ''EXE''} \<and>
   findSignature d \<noteq> Some ''APK''"
  using scanFrom_names [of d 0] by (auto simp: findSignature_def)

text \<open>
  Claim C7, amended. In a buffer of at least 19 bytes that holds \<open>50 4B 03 04\<close> at
  offset 10 and no table entry at any other offset, \<open>findSignature\<close> finds ZIP; in a
  buffer that holds no table entry at any offset it finds nothing. The bound on the
  length is needed: the scan visits the offsets below \<open>length - 8\<close> only.
\<close>

theorem findSignature_zip_at_10:
  "(\<forall>d. 19 \<le> length d \<and> occursAt [0x50, 0x4B, 0x03, 0x04] d 10 \<and>
        (\<forall>i. i \<noteq> 10 \<longrightarrow> (\<forall>s\<in>set sigs. \<not> occursAt (snd s) d i))
        \<longrightarrow> findSignature d = Some ''ZIP'') \<and>
   (\<forall>d. (\<forall>i. \<forall>s\<in>set sigs. \<not> occursAt (snd s) d i) \<longrightarrow> findSignature d = None)"
proof (intro conjI allI impI)
  fix d :: "byte list"
  assume h: "19 \<le> length d \<and> occursAt [0x50, 0x4B, 0x03, 0x04] d 10 \<and>
        (\<forall>i. i \<noteq> 10 \<longrightarrow> (\<forall>s\<in>set sigs. \<not> occursAt (snd s) d i))"
  have before: "\<forall>j. 0 \<le> j \<and> j < 10 \<longrightarrow> firstSig sigs d j = None"
    using h by (auto simp: firstSig_None matchFrom_occursAt)
  have at: "firstSig sigs d 10 = Some ''ZIP''"
    using h by (intro firstSig_zip) (simp add: matchFrom_occursAt)
  have "scanFrom d 0 = Some ''ZIP''"
    using h before at by (intro scanFrom_first [where k = 10]) auto
  then show "findSignature d = Some ''ZIP''" by (simp add: findSignature_def)
next
  fix d :: "byte list"
  assume "\<forall>i. \<forall>s\<in>set sigs. \<not> occursAt (snd s) d i"
  then have "\<forall>j. 0 \<le> j \<and> int j < int (length d) - 8 \<longrightarrow> firstSig sigs d j = None"
    by (simp add: firstSig_None matchFrom_occursAt)
  then show "findSignature d = None"
    unfolding findSignature_def by (rule scanFrom_None)
qed

lemma occursAt_first: "occursAt (b # bs) d i \<Longrightarrow> i < length d \<and> d ! i = b"
  by (cases "i < length d") (auto simp: occursAt_def Cons_nth_drop_Suc [symmetric])


lemma zip18_first: "i < length zip18 \<Longrightarrow> zip18 ! i \<in> {0x50, 0x25, 0x52, 0x4D} \<Longrightarrow> i = 10"
  by (auto simp: zip18_def nth_append nth_Cons' split: if_splits)

lemma zip18_len: "length zip18 = 18"
  by (simp add: zip18_def)

text \<open>Without the bound on the length the statement of C7 fails: in the 18 bytes of
  \<open>zip18\<close> the scan visits the offsets 0 to 9 and stops before offset 10.\<close>

theorem findSignature_zip_at_10_counterexample:
  "\<not> (\<forall>d. occursAt [0x50, 0x4B, 0x03, 0x04] d 10 \<and>
        (\<forall>i. i \<noteq> 10 \<longrightarrow> (\<forall>s\<in>set sigs. \<not> occursAt (snd s) d i))
        \<longrightarrow> findSignature d = Some ''ZIP'')"
proof
  assume a: "\<forall>d. occursAt [0x50, 0x4B, 0x03, 0x04] d 10 \<and>
        (\<forall>i. i \<noteq> 10 \<longrightarrow> (\<forall>s\<in>set sigs. \<not> occursAt (snd s) d i))
        \<longrightarrow> findSignature d = Some ''ZIP''"
  have o: "occursAt [0x50, 0x4B, 0x03, 0x04] zip18 10"
    by (simp add: occursAt_def zip18_def)
  have n: "\<forall>i. i \<noteq> 10 \<longrightarrow> (\<forall>s\<in>set sigs. \<not> occursAt (snd s) zip18 i)"
    using zip18_first by (auto simp: sigs_def dest!: occursAt_first)
  have "\<forall>j. 0 \<le> j \<and> int j < int (length zip18) - 8 \<longrightarrow> firstSig sigs zip18 j = None"
    using n by (auto simp: firstSig_None matchFrom_occursAt zip18_len)
  then have "findSignature zip18 = None"
    unfolding findSignature_def by (rule scanFrom_None)
  with a o n show False by auto
qed


lemma zip19_first: "i < length zip19 \<Longrightarrow> zip19 ! i \<in> {0x50, 0x25, 0x52, 0x4D} \<Longrightarrow> i = 10"
  by (auto simp: zip19_def nth_append nth_Cons' split: if_splits)

theorem findSignature_zip_at_10_witness:
  "19 \<le> length zip19 \<and> occursAt [0x50, 0x4B, 0x03, 0x04] zip19 10 \<and>
   findSignature zip19 = Some ''ZIP'' \<and> findSignature (replicate 20 0) = None"
proof -
  have l: "19 \<le> length zip19" by (simp add: zip19_def)
  have o: "occursAt [0x50, 0x4B, 0x03, 0x04] zip19 10"
    by (simp add: occursAt_def zip19_def)
  have n: "\<forall>i. i \<noteq> 10 \<longrightarrow> (\<forall>s\<in>set sigs. \<not> occursAt (snd s) zip19 i)"
    using zip19_first by (auto simp: sigs_def dest!: occursAt_first)
  have z: "\<forall>i. \<forall>s\<in>set sigs. \<not> occursAt (snd s) (replicate 20 0) i"
    by (auto simp: sigs_def dest!: occursAt_first)
  from findSignature_zip_at_10 l o n z show ?thesis by blast
qed

section \<open>Rounding, verified\<close>

lemma pow2_powr: "pow2 e = 2 powr (of_int e)"
  by (simp add: pow2_def powr_int)

lemma pow2_pos: "0 < pow2 e"
  by (simp add: pow2_def)

lemma roundEven_int: "roundEven (of_int k) = k"
  by (simp add: roundEven_def)

lemma roundEven_le: "y \<le> of_int k \<Longrightarrow> roundEven y \<le> k"
proof -
  assume y: "y \<le> of_int k"
  show ?thesis
  proof (cases "y = of_int k")
    case True
    then show ?thesis by (simp add: roundEven_int)
  next
    case False
    with y have "y < of_int k" by simp
    then have "\<lfloor>y\<rfloor> < k" by (simp add: floor_less_iff)
    then show ?thesis by (auto simp: roundEven_def Let_def)
  qed
qed

lemma roundEven_ge: "of_int k \<le> y \<Longrightarrow> k \<le> roundEven y"
proof -
  assume "of_int k \<le> y"
  then have "k \<le> \<lfloor>y\<rfloor>" by (simp add: le_floor_iff)
  then show ?thesis by (auto simp: roundEven_def Let_def)
qed

lemma fl_0: "fl 0 = 0"
  by (simp add: fl_def)

lemma expo_eq: "pow2 e \<le> \<bar>x\<bar> \<Longrightarrow> \<bar>x\<bar> < pow2 (e + 1) \<Longrightarrow> - 1022 \<le> e \<Longrightarrow> expo x = e"
proof -
  assume a: "pow2 e \<le> \<bar>x\<bar>" "\<bar>x\<bar> < pow2 (e + 1)" "- 1022 \<le> e"
  have "0 < \<bar>x\<bar>" using a(1) pow2_pos [of e] by linarith
  then have "\<lfloor>log 2 \<bar>x\<bar>\<rfloor> = e"
    using a(1,2) by (simp add: floor_log_eq_powr_iff pow2_powr)
  with a(3) show ?thesis by (simp add: expo_def)
qed

lemma expo_le:
  assumes "x \<noteq> 0" "\<bar>x\<bar> < pow2 (e + 1)" "- 1022 \<le> e"
  shows "expo x \<le> e"
proof -
  have "0 < \<bar>x\<bar>" using assms(1) by simp
  then have "log 2 \<bar>x\<bar> < of_int (e + 1)"
    using assms(2) by (simp add: log_less_iff pow2_powr)
  then have "\<lfloor>log 2 \<bar>x\<bar>\<rfloor> < e + 1" unfolding floor_less_iff .
  with assms(3) show ?thesis by (simp add: expo_def)
qed

lemma pow2_inverse_int:
  assumes "e \<le> 0"
  shows "1 / pow2 e = of_int (2 ^ nat (- e))"
  using assms by (auto simp: pow2_def)

text \<open>A value between 0 and a natural number below \<open>2^53\<close> is rounded to a value in the same range.\<close>

lemma fl_bounds:
  assumes "0 \<le> x" "x \<le> real b" "b < 2 ^ 53"
  shows "0 \<le> fl x \<and> fl x \<le> real b"
proof (cases "x = 0")
  case True
  then show ?thesis by (simp add: fl_0)
next
  case False
  define u where "u = pow2 (expo x - 52)"
  have u: "0 < u" by (simp add: u_def pow2_pos)
  have "\<bar>x\<bar> < pow2 (52 + 1)"
    using assms by (simp add: pow2_def) 
  then have "expo x \<le> 52" using False by (intro expo_le) simp_all
  then have "1 / u = of_int (2 ^ nat (- (expo x - 52)))"
    unfolding u_def by (intro pow2_inverse_int) simp
  then have "real b / u = of_int (int b * 2 ^ nat (- (expo x - 52)))"
    by (simp add: divide_inverse)
  moreover have "x / u \<le> real b / u" using assms(2) u by (simp add: divide_right_mono)
  ultimately have hi: "roundEven (x / u) \<le> int b * 2 ^ nat (- (expo x - 52))"
    by (intro roundEven_le) simp
  have "of_int 0 \<le> x / u" using assms(1) u by simp
  then have lo: "0 \<le> roundEven (x / u)" by (rule roundEven_ge)
  have "(of_int (roundEven (x / u)) :: real) \<le> of_int (int b * 2 ^ nat (- (expo x - 52)))"
    using hi by (simp only: of_int_le_iff)
  then have "of_int (roundEven (x / u)) * u \<le> of_int (int b * 2 ^ nat (- (expo x - 52))) * u"
    using u by (intro mult_right_mono) simp_all
  also have "\<dots> = (real b / u) * u"
    using \<open>real b / u = of_int (int b * 2 ^ nat (- (expo x - 52)))\<close> by simp
  also have "\<dots> = real b" using u by simp
  finally have "of_int (roundEven (x / u)) * u \<le> real b" .
  moreover have "0 \<le> of_int (roundEven (x / u)) * u" using lo u by simp
  ultimately show ?thesis using False by (simp add: fl_def u_def)
qed

lemma fl_nat:
  assumes "b < 2 ^ 53"
  shows "fl (real b) = real b"
proof (cases "b = 0")
  case True
  then show ?thesis by (simp add: fl_0)
next
  case False
  define u where "u = pow2 (expo (real b) - 52)"
  have u: "0 < u" by (simp add: u_def pow2_pos)
  have "\<bar>real b\<bar> < pow2 (52 + 1)"
    using assms by (simp add: pow2_def)
  then have "expo (real b) \<le> 52" using False by (intro expo_le) simp_all
  then have "1 / u = of_int (2 ^ nat (- (expo (real b) - 52)))"
    unfolding u_def by (intro pow2_inverse_int) simp
  then have q: "real b / u = of_int (int b * 2 ^ nat (- (expo (real b) - 52)))"
    by (simp add: divide_inverse)
  have "of_int (roundEven (real b / u)) * u = (real b / u) * u"
    unfolding q roundEven_int by simp
  also have "\<dots> = real b" using u by simp
  finally show ?thesis using False by (simp add: fl_def u_def)
qed

lemma fl_1: "fl 1 = 1"
  using fl_nat [of 1] by simp

lemma fl_100: "fl 100 = 100"
  using fl_nat [of 100] by simp

text \<open>Evaluation at a concrete value, once its binade is known.\<close>

lemma fl_eval:
  "pow2 e \<le> \<bar>x\<bar> \<Longrightarrow> \<bar>x\<bar> < pow2 (e + 1) \<Longrightarrow> - 1022 \<le> e \<Longrightarrow>
   fl x = of_int (roundEven (x / pow2 (e - 52))) * pow2 (e - 52)"
proof -
  assume a: "pow2 e \<le> \<bar>x\<bar>" "\<bar>x\<bar> < pow2 (e + 1)" "- 1022 \<le> e"
  then have "expo x = e" by (rule expo_eq)
  moreover have "x \<noteq> 0" using a(1) pow2_pos [of e] by auto
  ultimately show ?thesis by (simp add: fl_def)
qed

lemma pow2_add: "pow2 (a + b) = pow2 a * pow2 b"
  by (simp add: pow2_powr powr_add)

lemma pow2_mono: "a \<le> b \<Longrightarrow> pow2 a \<le> pow2 b"
  by (simp add: pow2_powr)

lemma pow2_52: "pow2 e = of_int (2 ^ 52) * pow2 (e - 52)"
proof -
  have "pow2 e = pow2 (52 + (e - 52))" by simp
  also have "\<dots> = pow2 52 * pow2 (e - 52)" by (rule pow2_add)
  finally show ?thesis by (simp add: pow2_def)
qed

lemma fl_nonpos: "x \<le> 0 \<Longrightarrow> fl x \<le> 0"
proof (cases "x = 0")
  case True
  then show ?thesis by (simp add: fl_0)
next
  case False
  assume "x \<le> 0"
  then have "x / pow2 (expo x - 52) \<le> of_int 0"
    using pow2_pos [of "expo x - 52"] by (simp add: divide_le_0_iff)
  then have "roundEven (x / pow2 (expo x - 52)) \<le> 0" by (rule roundEven_le)
  then have "of_int (roundEven (x / pow2 (expo x - 52))) * pow2 (expo x - 52) \<le> 0"
    using pow2_pos [of "expo x - 52"] by (simp add: mult_le_0_iff)
  then show ?thesis using False by (simp add: fl_def)
qed

lemma fl_ge_pow2:
  assumes "- 1022 \<le> k" "pow2 k \<le> x"
  shows "pow2 k \<le> fl x"
proof -
  have x: "0 < x" using assms(2) pow2_pos [of k] by linarith
  define e where "e = \<lfloor>log 2 \<bar>x\<bar>\<rfloor>"
  have "of_int k \<le> log 2 \<bar>x\<bar>"
    using assms(2) x by (simp add: le_log_iff pow2_powr)
  then have ke: "k \<le> e" by (simp add: e_def le_floor_iff)
  then have ex: "expo x = e" using assms(1) by (simp add: expo_def e_def)
  have "pow2 e \<le> \<bar>x\<bar>"
    using x floor_log_eq_powr_iff [of "\<bar>x\<bar>" 2 e] by (simp add: e_def pow2_powr)
  then have "of_int (2 ^ 52) * pow2 (e - 52) \<le> x" using x pow2_52 [of e] by simp
  then have "of_int (2 ^ 52) \<le> x / pow2 (e - 52)"
    using pow2_pos [of "e - 52"] by (simp add: pos_le_divide_eq)
  then have "2 ^ 52 \<le> roundEven (x / pow2 (e - 52))" by (rule roundEven_ge)
  then have "(of_int (2 ^ 52) :: real) \<le> of_int (roundEven (x / pow2 (e - 52)))"
    by (simp only: of_int_le_iff)
  then have "of_int (2 ^ 52) * pow2 (e - 52) \<le> of_int (roundEven (x / pow2 (e - 52))) * pow2 (e - 52)"
    using pow2_pos [of "e - 52"] by (intro mult_right_mono) simp_all
  then have "pow2 e \<le> fl x" using x ex pow2_52 [of e] by (simp add: fl_def)
  moreover have "pow2 k \<le> pow2 e" using ke by (rule pow2_mono)
  ultimately show ?thesis by linarith
qed

lemma fl_le_pow2:
  assumes "- 1022 < k" "0 < x" "x < pow2 k"
  shows "fl x \<le> pow2 k"
proof -
  define e where "e = expo x"
  have "\<bar>x\<bar> < pow2 ((k - 1) + 1)" using assms by simp
  then have "expo x \<le> k - 1" using assms by (intro expo_le) simp_all
  then have ek: "0 \<le> k - e" by (simp add: e_def)
  have "pow2 k = pow2 ((k - e + 52) + (e - 52))" by simp
  also have "\<dots> = pow2 (k - e + 52) * pow2 (e - 52)" by (rule pow2_add)
  also have "pow2 (k - e + 52) = of_int (2 ^ nat (k - e + 52))" using ek by (simp add: pow2_def)
  finally have pk: "pow2 k = of_int (2 ^ nat (k - e + 52)) * pow2 (e - 52)" .
  then have "x / pow2 (e - 52) \<le> of_int (2 ^ nat (k - e + 52))"
    using assms(3) pow2_pos [of "e - 52"] by (simp add: pos_divide_le_eq)
  then have "roundEven (x / pow2 (e - 52)) \<le> 2 ^ nat (k - e + 52)" by (rule roundEven_le)
  then have "(of_int (roundEven (x / pow2 (e - 52))) :: real) \<le> of_int (2 ^ nat (k - e + 52))"
    by (simp only: of_int_le_iff)
  then have "of_int (roundEven (x / pow2 (e - 52))) * pow2 (e - 52)
      \<le> of_int (2 ^ nat (k - e + 52)) * pow2 (e - 52)"
    using pow2_pos [of "e - 52"] by (intro mult_right_mono) simp_all
  then show ?thesis using assms(2) pk by (simp add: fl_def e_def)
qed

lemma fl_literal_0_3: "fl (3 / 10) = 5404319552844595 / 2 ^ 54"
  by (simp add: fl_eval [where e = "-2"] pow2_def roundEven_def Let_def)

text \<open>The literal \<open>0.3\<close> of the source is \<open>fl (3 / 10)\<close>. A value of the format is above
  it exactly when it is above \<open>3 / 10\<close>.\<close>

lemma above_literal_0_3: "fl (3 / 10) < fl x \<longleftrightarrow> 3 / 10 < fl x"
proof
  assume "3 / 10 < fl x"
  then show "fl (3 / 10) < fl x" by (simp add: fl_literal_0_3)
next
  assume a: "fl (3 / 10) < fl x"
  then have b: "5404319552844595 / 2 ^ 54 < fl x" by (simp add: fl_literal_0_3)
  have x: "0 < x" using b fl_nonpos [of x] by (cases "0 < x") auto
  consider "x < pow2 (- 2)" | "pow2 (- 1) \<le> x" | "pow2 (- 2) \<le> x" "x < pow2 (- 1)"
    by linarith
  then show "3 / 10 < fl x"
  proof cases
    case 1
    then have "fl x \<le> pow2 (- 2)" using x by (intro fl_le_pow2) simp_all
    with b show ?thesis by (simp add: pow2_def)
  next
    case 2
    then have "pow2 (- 1) \<le> fl x" by (intro fl_ge_pow2) simp_all
    then show ?thesis by (simp add: pow2_def)
  next
    case 3
    then have f: "fl x = of_int (roundEven (x / pow2 (- 2 - 52))) * pow2 (- 2 - 52)"
      using x by (intro fl_eval) simp_all
    define m where "m = roundEven (x / pow2 (- 2 - 52))"
    have "5404319552844595 / 2 ^ 54 < of_int m / (2 ^ 54 :: real)"
      using b f by (simp add: m_def pow2_def)
    then have "(5404319552844595 :: real) < of_int m" by (simp add: divide_less_cancel)
    then have "5404319552844595 < m" by linarith
    then have "5404319552844596 \<le> m" by simp
    then have "(5404319552844596 :: real) \<le> of_int m" by linarith
    then have "5404319552844596 / 2 ^ 54 \<le> of_int m / (2 ^ 54 :: real)"
      by (simp add: divide_le_cancel)
    then show ?thesis using f by (simp add: m_def pow2_def)
  qed
qed

lemma roundEven_error: "\<bar>of_int (roundEven y) - y\<bar> \<le> 1 / 2"
proof -
  have "of_int \<lfloor>y\<rfloor> \<le> y" "y < of_int \<lfloor>y\<rfloor> + 1" by linarith+
  then show ?thesis by (auto simp: roundEven_def Let_def)
qed

text \<open>The relative error of rounding, for a value that is not below the normal range.\<close>

lemma fl_error:
  assumes "pow2 (- 1022) \<le> \<bar>x\<bar>"
  shows "\<bar>fl x - x\<bar> \<le> \<bar>x\<bar> / 2 ^ 53"
proof -
  have x: "0 < \<bar>x\<bar>" using assms pow2_pos [of "- 1022"] by linarith
  define e where "e = \<lfloor>log 2 \<bar>x\<bar>\<rfloor>"
  define u where "u = pow2 (e - 52)"
  have u: "0 < u" by (simp add: u_def pow2_pos)
  have "of_int (- 1022) \<le> log 2 \<bar>x\<bar>"
    using assms x by (simp add: le_log_iff pow2_powr)
  then have "- 1022 \<le> e" unfolding e_def le_floor_iff .
  then have ex: "expo x = e" by (simp add: expo_def e_def)
  have "pow2 e \<le> \<bar>x\<bar>"
    using x floor_log_eq_powr_iff [of "\<bar>x\<bar>" 2 e] by (simp add: e_def pow2_powr)
  then have ux: "2 ^ 52 * u \<le> \<bar>x\<bar>" using pow2_52 [of e] by (simp add: u_def)
  have "fl x - x = (of_int (roundEven (x / u)) - x / u) * u"
    using x u ex by (simp add: fl_def u_def algebra_simps)
  then have "\<bar>fl x - x\<bar> = \<bar>of_int (roundEven (x / u)) - x / u\<bar> * u"
    using u by (simp add: abs_mult)
  also have "\<dots> \<le> 1 / 2 * u"
    using u roundEven_error [of "x / u"] by (intro mult_right_mono) simp_all
  also have "\<dots> \<le> \<bar>x\<bar> / 2 ^ 53" using ux by simp
  finally show ?thesis .
qed

lemma fl_literal_0_6: "fl (6 / 10) = 5404319552844595 / 2 ^ 53"
  by (simp add: fl_eval [where e = "-1"] pow2_def roundEven_def Let_def)

lemma fl_literal_0_4: "fl (4 / 10) = 3602879701896397 / 2 ^ 53"
  by (simp add: fl_eval [where e = "-2"] pow2_def roundEven_def Let_def)

lemma weighted_term:
  assumes "t \<le> (100::nat)" "\<bar>c - w\<bar> \<le> 1 / 10 ^ 15" "1 / 4 \<le> c" "c \<le> 1"
  shows "\<bar>fl (real t * c) - real t * w\<bar> \<le> 2 / 10 ^ 13 \<and> 0 \<le> fl (real t * c) \<and>
    fl (real t * c) \<le> 100 \<and> (t \<noteq> 0 \<longrightarrow> 1 / 4 \<le> fl (real t * c))"
proof (cases "t = 0")
  case True
  then show ?thesis by (simp add: fl_0)
next
  case False
  then have t: "1 \<le> real t" "real t \<le> 100" using assms(1) by simp_all
  have "1 * (1 / 4) \<le> real t * c"
    using t assms(3) by (intro mult_mono) simp_all
  then have lo: "1 / 4 \<le> real t * c" by simp
  have "real t * c \<le> 100 * 1"
    using t assms(3,4) by (intro mult_mono) simp_all
  then have hi: "real t * c \<le> 100" by simp
  have "pow2 (- 1022) \<le> pow2 (- 2)" by (rule pow2_mono) simp
  also have "\<dots> \<le> \<bar>real t * c\<bar>" using lo by (simp add: pow2_def)
  finally have "\<bar>fl (real t * c) - real t * c\<bar> \<le> \<bar>real t * c\<bar> / 2 ^ 53" by (rule fl_error)
  also have "\<dots> \<le> 100 / 2 ^ 53"
  proof (rule divide_right_mono)
    show "\<bar>real t * c\<bar> \<le> 100" using lo hi by linarith
  qed simp
  finally have e1: "\<bar>fl (real t * c) - real t * c\<bar> \<le> 100 / 2 ^ 53" .
  have "\<bar>real t * c - real t * w\<bar> = real t * \<bar>c - w\<bar>"
    by (simp add: abs_mult flip: right_diff_distrib)
  also have "\<dots> \<le> 100 * (1 / 10 ^ 15)" using t assms(2) by (intro mult_mono) simp_all
  finally have e2: "\<bar>real t * c - real t * w\<bar> \<le> 100 * (1 / 10 ^ 15)" .
  have "\<bar>fl (real t * c) - real t * w\<bar> \<le> 100 / 2 ^ 53 + 100 * (1 / 10 ^ 15)"
    using e1 e2 by linarith
  also have "\<dots> \<le> 2 / 10 ^ 13" by simp
  finally have A: "\<bar>fl (real t * c) - real t * w\<bar> \<le> 2 / 10 ^ 13" .
  have "0 \<le> real t * c" using lo by linarith
  then have B: "0 \<le> fl (real t * c) \<and> fl (real t * c) \<le> real 100"
    using hi by (intro fl_bounds) simp_all
  have "pow2 (- 2) \<le> fl (real t * c)"
    using lo by (intro fl_ge_pow2) (simp_all add: pow2_def)
  then have C: "1 / 4 \<le> fl (real t * c)" by (simp add: pow2_def)
  from A B C show ?thesis by simp
qed

lemma floor_tenths:
  assumes "odd N" "\<bar>d\<bar> \<le> 1 / 20"
  shows "\<lfloor>real N / 10 + d\<rfloor> = int (N div 10)"
proof -
  have "N mod 10 \<noteq> 0" using assms(1) by presburger
  moreover have "N mod 10 < 10" by simp
  moreover have "N mod 10 \<noteq> 10 - 1 + 1" by simp
  ultimately have m: "1 \<le> N mod 10" "N mod 10 \<le> 9" by simp_all
  have "real N = real (10 * (N div 10) + N mod 10)" by (simp only: mult_div_mod_eq)
  then have "real N = 10 * real (N div 10) + real (N mod 10)"
    unfolding of_nat_add of_nat_mult of_nat_numeral .
  then have N: "real N / 10 = real (N div 10) + real (N mod 10) / 10"
    by linarith
  have "1 / 10 \<le> real (N mod 10) / 10" "real (N mod 10) / 10 \<le> 9 / 10"
    using m by simp_all
  then have "real (N div 10) \<le> real N / 10 + d" "real N / 10 + d < real (N div 10) + 1"
    using assms(2) N by linarith+
  then show ?thesis by (simp add: floor_eq_iff)
qed

text \<open>
  For integer sub-scores from 0 to 100 the weighted sum of \<open>aggregate\<close>, computed in
  binary64 as the source does, is rounded by \<^verbatim>\<open>Math.round\<close> to the same integer as the
  exact sum.
\<close>

lemma aggregate_binary64:
  assumes "t \<le> (100::nat)" "l \<le> (100::nat)"
  shows "\<lfloor>fl (fl (real t * fl (6 / 10)) + fl (real l * fl (4 / 10))) + 1 / 2\<rfloor>
    = \<lfloor>real t * (6 / 10) + real l * (4 / 10) + 1 / 2\<rfloor>"
proof -
  define a where "a = fl (real t * fl (6 / 10))"
  define b where "b = fl (real l * fl (4 / 10))"
  define v where "v = real t * (6 / 10) + real l * (4 / 10)"
  have c6: "\<bar>fl (6 / 10) - 6 / 10\<bar> \<le> 1 / 10 ^ 15" "1 / 4 \<le> fl (6 / 10)" "fl (6 / 10) \<le> 1"
    unfolding fl_literal_0_6 by simp_all
  have c4: "\<bar>fl (4 / 10) - 4 / 10\<bar> \<le> 1 / 10 ^ 15" "1 / 4 \<le> fl (4 / 10)" "fl (4 / 10) \<le> 1"
    unfolding fl_literal_0_4 by simp_all
  have A: "\<bar>a - real t * (6 / 10)\<bar> \<le> 2 / 10 ^ 13 \<and> 0 \<le> a \<and> a \<le> 100 \<and> (t \<noteq> 0 \<longrightarrow> 1 / 4 \<le> a)"
    unfolding a_def using assms(1) c6 by (rule weighted_term)
  have B: "\<bar>b - real l * (4 / 10)\<bar> \<le> 2 / 10 ^ 13 \<and> 0 \<le> b \<and> b \<le> 100 \<and> (l \<noteq> 0 \<longrightarrow> 1 / 4 \<le> b)"
    unfolding b_def using assms(2) c4 by (rule weighted_term)
  have S: "\<bar>fl (a + b) - (a + b)\<bar> \<le> 200 / 2 ^ 53"
  proof (cases "t = 0 \<and> l = 0")
    case True
    then show ?thesis by (simp add: a_def b_def fl_0)
  next
    case False
    then have "1 / 4 \<le> a + b" using A B by auto
    then have lo: "pow2 (- 2) \<le> \<bar>a + b\<bar>" by (simp add: pow2_def)
    have "pow2 (- 1022) \<le> pow2 (- 2)" by (rule pow2_mono) simp
    with lo have "pow2 (- 1022) \<le> \<bar>a + b\<bar>" by linarith
    then have "\<bar>fl (a + b) - (a + b)\<bar> \<le> \<bar>a + b\<bar> / 2 ^ 53" by (rule fl_error)
    also have "\<dots> \<le> 200 / 2 ^ 53" using A B by simp
    finally show ?thesis .
  qed
  have "\<bar>fl (a + b) - v\<bar> \<le> 200 / 2 ^ 53 + 2 / 10 ^ 13 + 2 / 10 ^ 13"
    using A B S unfolding v_def by linarith
  also have "\<dots> \<le> 1 / 20" by simp
  finally have d: "\<bar>fl (a + b) - v\<bar> \<le> 1 / 20" .
  define N where "N = 6 * t + 4 * l + 5"
  have odd: "odd N" by (simp add: N_def)
  have vN: "v + 1 / 2 = real N / 10" by (simp add: v_def N_def)
  have "\<lfloor>real N / 10 + (fl (a + b) - v)\<rfloor> = int (N div 10)"
    using odd d by (rule floor_tenths)
  moreover have "real N / 10 + (fl (a + b) - v) = fl (a + b) + 1 / 2"
    unfolding vN [symmetric] by simp
  ultimately have e1: "\<lfloor>fl (a + b) + 1 / 2\<rfloor> = int (N div 10)" by (simp only:)
  have "\<lfloor>real N / 10 + 0\<rfloor> = int (N div 10)"
    using odd by (rule floor_tenths) simp
  then have e2: "\<lfloor>v + 1 / 2\<rfloor> = int (N div 10)"
    unfolding vN by (simp only: add_0_right)
  from e1 e2 show ?thesis unfolding a_def b_def v_def by (simp only:)
qed

section \<open>The pixel analyser and the scores, verified\<close>





















lemma lsbInner_agree:
  "(\<forall>j\<in>set js. lsbSet d1 (i + j) = lsbSet d2 (i + j)) \<Longrightarrow> lsbInner d1 i js c = lsbInner d2 i js c"
  by (induction d1 i js c rule: lsbInner.induct) auto

lemma lsbLoop_agree:
  assumes "length d1 = length d2"
    and "\<forall>k. k mod 4 \<noteq> 3 \<longrightarrow> lsbSet d1 k = lsbSet d2 k"
  shows "i mod 4 = 0 \<Longrightarrow> lsbLoop d1 i c = lsbLoop d2 i c"
proof (induction "length d1 - i" arbitrary: i c rule: less_induct)
  case less
  show ?case
  proof (cases "i < length d1")
    case False
    then show ?thesis
      using assms(1) by (simp add: lsbLoop.simps [of d1 i] lsbLoop.simps [of d2 i])
  next
    case True
    have "(i + 0) mod 4 \<noteq> 3" "(i + 1) mod 4 \<noteq> 3" "(i + 2) mod 4 \<noteq> 3"
      using less.prems by presburger+
    then have "lsbSet d1 (i + 0) = lsbSet d2 (i + 0)" "lsbSet d1 (i + 1) = lsbSet d2 (i + 1)"
      "lsbSet d1 (i + 2) = lsbSet d2 (i + 2)"
      using assms(2) by blast+
    then have "\<forall>j\<in>set [0, 1, 2]. lsbSet d1 (i + j) = lsbSet d2 (i + j)"
      by simp
    then have inner: "lsbInner d1 i [0, 1, 2] c = lsbInner d2 i [0, 1, 2] c"
      by (rule lsbInner_agree)
    have "lsbLoop d1 (i + 4) (lsbInner d1 i [0, 1, 2] c)
        = lsbLoop d2 (i + 4) (lsbInner d1 i [0, 1, 2] c)"
    proof (rule less.hyps)
      show "length d1 - (i + 4) < length d1 - i" using True by arith
      show "(i + 4) mod 4 = 0" using less.prems by simp
    qed
    with True inner assms(1) show ?thesis
      by (simp add: lsbLoop.simps [of d1 i] lsbLoop.simps [of d2 i] del: lsbInner.simps)
  qed
qed

lemma lsbSet_agree:
  assumes "length d1 = length d2"
    and "\<forall>k<length d1. k mod 4 \<noteq> 3 \<longrightarrow> (d1 ! k) AND 1 = (d2 ! k) AND 1"
  shows "\<forall>k. k mod 4 \<noteq> 3 \<longrightarrow> lsbSet d1 k = lsbSet d2 k"
  using assms by (auto simp: lsbSet_def byteAt_def)

text \<open>
  Claim C10. Two grids with the same number of samples that agree on the lowest bit of
  the first three samples of every pixel get the same counters, the same score and the
  same summary from \<open>analyzeLSB\<close>: the fourth sample of a pixel and the upper seven
  bits of the others have no influence.
\<close>

theorem analyzeLSB_low_bits_only:
  "length (data g1) = length (data g2) \<and>
   (\<forall>k<length (data g1). k mod 4 \<noteq> 3 \<longrightarrow> (data g1 ! k) AND 1 = (data g2 ! k) AND 1)
   \<longrightarrow> lsbCounts (data g1) = lsbCounts (data g2) \<and>
       score (analyzeLSB g1) = score (analyzeLSB g2) \<and>
       summary (analyzeLSB g1) = summary (analyzeLSB g2)"
proof
  assume h: "length (data g1) = length (data g2) \<and>
   (\<forall>k<length (data g1). k mod 4 \<noteq> 3 \<longrightarrow> (data g1 ! k) AND 1 = (data g2 ! k) AND 1)"
  then have "\<forall>k. k mod 4 \<noteq> 3 \<longrightarrow> lsbSet (data g1) k = lsbSet (data g2) k"
    by (intro lsbSet_agree) auto
  with h have c: "lsbCounts (data g1) = lsbCounts (data g2)"
    unfolding lsbCounts_def by (intro lsbLoop_agree) auto
  then show "lsbCounts (data g1) = lsbCounts (data g2) \<and>
       score (analyzeLSB g1) = score (analyzeLSB g2) \<and>
       summary (analyzeLSB g1) = summary (analyzeLSB g2)"
    by (simp add: analyzeLSB_def)
qed

lemma gridAB_agree: "k < 8 \<Longrightarrow> k mod 4 \<noteq> 3 \<Longrightarrow> (data gridA ! k) AND 1 = (data gridB ! k) AND 1"
proof -
  assume "k < 8" "k mod 4 \<noteq> 3"
  then have "k = 0 \<or> k = 1 \<or> k = 2 \<or> k = 4 \<or> k = 5 \<or> k = 6" by presburger
  then show ?thesis by (auto simp: gridA_def gridB_def)
qed


theorem analyzeLSB_low_bits_only_witness:
  "data gridA \<noteq> data gridB \<and> lsbCounts (data gridA) = lsbCounts (data gridB) \<and>
   score (analyzeLSB gridA) = score (analyzeLSB gridB) \<and>
   summary (analyzeLSB gridA) = summary (analyzeLSB gridB)"
proof -
  have "length (data gridA) = length (data gridB)" by (simp add: gridA_def gridB_def)
  moreover have "\<forall>k<length (data gridA). k mod 4 \<noteq> 3 \<longrightarrow> (data gridA ! k) AND 1 = (data gridB ! k) AND 1"
    using gridAB_agree by (simp add: gridA_def)
  moreover have "data gridA \<noteq> data gridB" by (simp add: gridA_def gridB_def)
  ultimately show ?thesis using analyzeLSB_low_bits_only [of gridA gridB] by blast
qed

section \<open>Rounding in the score and in the summaries\<close>

lemma showNat_lt: "n < 10 \<Longrightarrow> showNat n = [''0123456789'' ! n]"
  by (simp add: showNat.simps [of n])

lemma showNat_ge: "10 \<le> n \<Longrightarrow> showNat n = showNat (n div 10) @ [''0123456789'' ! (n mod 10)]"
  by (simp add: showNat.simps [of n])

lemma skewGrid_counts: "lsbCounts (data skewGrid) = (231, 9)"
  by code_simp

text \<open>With the counters 231 and 9 the quotient \<open>222 / 240\<close> is rounded, its difference
  from 1 is below \<open>3 / 40\<close>, and the product with 100 is below \<open>7.5\<close>: the score is 7
  and the summary shows \<open>0.07\<close>, where exact arithmetic would give 8 and \<open>0.08\<close>.\<close>

lemma skewGrid_result:
  "analyzeLSB skewGrid = \<lparr>score = Fin 7, summary = ''LSB balance: 0.07, 0s=231, 1s=9.''\<rparr>"
proof -
  define bal where "bal = fl (37 / 40)"
  define ev where "ev = fl (1 - bal)"
  define sc where "sc = fl (ev * 100)"
  have r: "analyzeLSB skewGrid =
      \<lparr>score = Math_min (Fin 100) (Math_round (Fin sc)),
       summary = ''LSB balance: '' @ toFixed 2 (Fin ev) @ '', 0s='' @ showNat 231 @
         '', 1s='' @ showNat 9 @ ''.''\<rparr>"
    by (simp add: analyzeLSB_def skewGrid_counts num_sub_def bal_def ev_def sc_def)
  have bal: "bal = 8331659310635418 / 2 ^ 53"
    unfolding bal_def by (simp add: fl_eval [where e = "-1"] pow2_def roundEven_def Let_def)
  have ev: "ev = 675539944105574 / 2 ^ 53"
    unfolding ev_def bal
    by (simp add: fl_eval [where e = "-4"] pow2_def roundEven_def Let_def)
  have sc: "sc = 8444249301319675 / 2 ^ 50"
    unfolding sc_def ev
    by (simp add: fl_eval [where e = "2"] pow2_def roundEven_def Let_def)
  show ?thesis
    unfolding r ev sc
    by (simp add: fixedDigits_def padZeros_def showNat_lt showNat_ge)
qed

text \<open>The percentage in the summary of a tail with 23 printable bytes among 80: the
  rounded product is below \<open>28.75\<close>.\<close>

lemma printable_percentage: "toFixed 1 (Fin (fl (fl (23 / 80) * 100))) = ''28.7''"
proof -
  have p: "fl (23 / 80) = 2589569785738035 / 2 ^ 53"
    by (simp add: fl_eval [where e = "-2"] pow2_def roundEven_def Let_def)
  have q: "fl (2589569785738035 / 2 ^ 53 * 100) = 8092405580431359 / 2 ^ 48"
    by (simp add: fl_eval [where e = "4"] pow2_def roundEven_def Let_def)
  show ?thesis
    unfolding p q
    by (simp add: fixedDigits_def padZeros_def showNat_lt showNat_ge)
qed

section \<open>The entropy of a constant sequence\<close>

lemma byte_index: "unat (b::byte) < 256"
  using unsigned_less [of b, where ?'a = nat] by simp

lemma countBytes_length: "length (countBytes bs freq) = length freq"
  by (induction bs arbitrary: freq) auto

lemma countBytes_nth:
  "length freq = 256 \<Longrightarrow> v < 256 \<Longrightarrow>
   countBytes bs freq ! v = freq ! v + length (filter (\<lambda>b. unat b = v) bs)"
proof (induction bs arbitrary: freq)
  case Nil
  then show ?case by simp
next
  case (Cons b bs)
  have "countBytes bs (freq[unat b := freq ! unat b + 1]) ! v =
      (freq[unat b := freq ! unat b + 1]) ! v + length (filter (\<lambda>b. unat b = v) bs)"
    using Cons.prems by (intro Cons.IH) auto
  then show ?case using Cons.prems byte_index [of b]
    by (auto simp: nth_list_update)
qed

lemma entropySum_flat:
  "lg 1 = 0 \<Longrightarrow> n \<noteq> 0 \<Longrightarrow> (\<forall>c\<in>set cs. c = 0 \<or> real c = n) \<Longrightarrow> entropySum lg cs n 0 = 0"
  by (induction cs) (auto simp: fl_0 fl_1)

text \<open>With an implementation of the logarithm that returns 0 at 1, as the language
  standard requires, a sequence of one repeated byte value has the entropy 0.\<close>

lemma shannonEntropy_constant:
  assumes "bytes \<noteq> []" "set bytes \<subseteq> {v}" "lg 1 = 0"
  shows "shannonEntropy lg bytes = 0"
proof -
  let ?cs = "countBytes bytes (replicate 256 0)"
  have f: "filter (\<lambda>b. unat b = unat v) bytes = bytes"
    using assms(2) by (intro filter_True) auto
  have g: "\<And>k. k \<noteq> unat v \<Longrightarrow> filter (\<lambda>b. unat b = k) bytes = []"
    using assms(2) by (auto simp: filter_empty_conv)
  have "\<forall>c\<in>set ?cs. c = 0 \<or> real c = real (length bytes)"
  proof
    fix c assume "c \<in> set ?cs"
    then obtain k where k: "k < 256" "c = ?cs ! k"
      by (auto simp: in_set_conv_nth countBytes_length)
    then have "c = length (filter (\<lambda>b. unat b = k) bytes)"
      by (simp add: countBytes_nth)
    then show "c = 0 \<or> real c = real (length bytes)"
      using f g [of k] by (cases "k = unat v") auto
  qed
  moreover have "real (length bytes) \<noteq> 0" using assms(1) by simp
  ultimately have "entropySum lg ?cs (real (length bytes)) 0 = 0"
    using assms(3) by (intro entropySum_flat)
  then show ?thesis using assms(1) by (simp add: shannonEntropy_def)
qed

section \<open>The aggregate score and the tail score, verified\<close>

lemma floor_min_100:
  "of_int \<lfloor>min 100 (x::real) + 1 / 2\<rfloor> = min (100::real) (of_int \<lfloor>x + 1 / 2\<rfloor>)"
proof (cases "x \<le> 100")
  case True
  then have "\<lfloor>x + 1 / 2\<rfloor> \<le> 100" by (simp add: floor_le_iff)
  then have le: "(of_int \<lfloor>x + 1 / 2\<rfloor> :: real) \<le> 100" by linarith
  show ?thesis unfolding min_absorb2 [OF True] min_absorb2 [OF le] ..
next
  case False
  then have "100 \<le> \<lfloor>x + 1 / 2\<rfloor>" by (simp add: le_floor_iff)
  then have ge: "(100::real) \<le> of_int \<lfloor>x + 1 / 2\<rfloor>" by linarith
  from False have x: "100 \<le> x" by simp
  have "\<lfloor>(100::real) + 1 / 2\<rfloor> = 100" by (simp add: floor_eq_iff)
  then show ?thesis unfolding min_absorb1 [OF x] min_absorb1 [OF ge] by simp
qed

text \<open>
  Claim C2. For sub-scores between 0 and 100 the combined score is the rounded minimum
  of 100 and \<open>tail * 0.6 + lsb * 0.4\<close>; the level is "alert" from 60 on, "warn" from 30
  to below 60 and "safe" below 30. The sub-scores 100 and 100 give 100 and "alert", 0
  and 0 give 0 and "safe", 50 and 50 give 50 and "warn".
\<close>

theorem aggregate_score_and_level:
  "(\<forall>t l ts ls. 0 \<le> t \<and> t \<le> 100 \<and> 0 \<le> l \<and> l \<le> 100 \<longrightarrow>
      (\<exists>s. total (aggregate (sub t ts) (sub l ls)) = Fin s \<and>
           Fin s = Math_round (Fin (min 100 (t * 0.6 + l * 0.4))) \<and>
           level (aggregate (sub t ts) (sub l ls)) =
             (if s \<ge> 60 then ''alert'' else if 30 \<le> s then ''warn'' else ''safe''))) \<and>
   total (aggregate (sub 100 ts) (sub 100 ls)) = Fin 100 \<and>
   level (aggregate (sub 100 ts) (sub 100 ls)) = ''alert'' \<and>
   total (aggregate (sub 0 ts) (sub 0 ls)) = Fin 0 \<and>
   level (aggregate (sub 0 ts) (sub 0 ls)) = ''safe'' \<and>
   total (aggregate (sub 50 ts) (sub 50 ls)) = Fin 50 \<and>
   level (aggregate (sub 50 ts) (sub 50 ls)) = ''warn''"
proof (intro conjI allI impI)
  fix t l :: real and ts ls :: string
  show "\<exists>s. total (aggregate (sub t ts) (sub l ls)) = Fin s \<and>
           Fin s = Math_round (Fin (min 100 (t * 0.6 + l * 0.4))) \<and>
           level (aggregate (sub t ts) (sub l ls)) =
             (if s \<ge> 60 then ''alert'' else if 30 \<le> s then ''warn'' else ''safe'')"
    by (simp add: aggregate_def sub_def Let_def floor_min_100)
qed (simp_all add: aggregate_def sub_def Let_def)

theorem aggregate_score_and_level_witness:
  "total (aggregate (sub 75 ''t'') (sub 40 ''l'')) = Fin 61 \<and>
   level (aggregate (sub 75 ''t'') (sub 40 ''l'')) = ''alert'' \<and>
   total (aggregate (sub 25 ''t'') (sub 12 ''l'')) = Fin 20 \<and>
   level (aggregate (sub 25 ''t'') (sub 12 ''l'')) = ''safe''"
proof -
  have r: "\<And>t l ts ls. 0 \<le> t \<and> t \<le> 100 \<and> 0 \<le> l \<and> l \<le> 100 \<Longrightarrow>
      (\<exists>s. total (aggregate (sub t ts) (sub l ls)) = Fin s \<and>
           Fin s = Math_round (Fin (min 100 (t * 0.6 + l * 0.4))) \<and>
           level (aggregate (sub t ts) (sub l ls)) =
             (if s \<ge> 60 then ''alert'' else if 30 \<le> s then ''warn'' else ''safe''))"
    using aggregate_score_and_level by blast
  have "(0::real) \<le> 75 \<and> (75::real) \<le> 100 \<and> (0::real) \<le> 40 \<and> (40::real) \<le> 100" by simp
  from r [OF this, of "''t''" "''l''"] have a:
    "total (aggregate (sub 75 ''t'') (sub 40 ''l'')) = Fin 61 \<and>
     level (aggregate (sub 75 ''t'') (sub 40 ''l'')) = ''alert''"
    by auto
  have "(0::real) \<le> 25 \<and> (25::real) \<le> 100 \<and> (0::real) \<le> 12 \<and> (12::real) \<le> 100" by simp
  from r [OF this, of "''t''" "''l''"] have b:
    "total (aggregate (sub 25 ''t'') (sub 12 ''l'')) = Fin 20 \<and>
     level (aggregate (sub 25 ''t'') (sub 12 ''l'')) = ''safe''"
    by auto
  from a b show ?thesis by simp
qed

text \<open>
  Claim C3. The empty tail has sub-score 0 and the fixed summary; a non-empty tail has
  the minimum of 100 and the sum of 25 for a length above 100, 25 for a printable
  fraction above 0.3, 25 for an entropy above 6.5 and 30 for a signature match.
\<close>

theorem analyzeTail_score:
  "analyzeTail lg [] = \<lparr>score = Fin 0, summary = ''No extra data found after image end.''\<rparr> \<and>
   (\<forall>t. t \<noteq> [] \<longrightarrow>
      score (analyzeTail lg t) =
        Fin (min 100 ((if length t > 100 then 25 else 0) +
                      (if printableFraction t > 0.3 then 25 else 0) +
                      (if shannonEntropy lg t > 6.5 then 25 else 0) +
                      (if findSignature t \<noteq> None then 30 else 0))))"
  by (simp add: analyzeTail_def Let_def)

lemma findSignature_short: "length d \<le> 8 \<Longrightarrow> findSignature d = None"
  by (simp add: findSignature_def scanFrom.simps [of d 0])

lemma printableFraction_all:
  "bs \<noteq> [] \<Longrightarrow> \<forall>b\<in>set bs. 32 \<le> b \<and> b \<le> 126 \<Longrightarrow> printableFraction bs = 1"
proof -
  have c: "\<And>c. \<forall>b\<in>set bs. 32 \<le> b \<and> b \<le> 126 \<Longrightarrow> countPrintable bs c = c + length bs"
    by (induction bs) auto
  assume "bs \<noteq> []" "\<forall>b\<in>set bs. 32 \<le> b \<and> b \<le> 126"
  then show ?thesis by (simp add: printableFraction_def c fl_1)
qed

theorem analyzeTail_score_witness:
  "[0x41, 0x41, 0x41] \<noteq> ([] :: byte list) \<and>
   score (analyzeTail (log 2) [0x41, 0x41, 0x41]) = Fin 25"
proof -
  have e: "shannonEntropy (log 2) [0x41, 0x41, 0x41] = 0"
    by (rule shannonEntropy_constant) simp_all
  have p: "printableFraction [0x41, 0x41, 0x41] = 1"
    by (rule printableFraction_all) simp_all
  have s: "findSignature [0x41, 0x41, 0x41] = None"
    by (rule findSignature_short) simp
  have n: "[0x41, 0x41, 0x41] \<noteq> ([] :: byte list)" by simp
  with analyzeTail_score [of "log 2"] have
    "score (analyzeTail (log 2) [0x41, 0x41, 0x41]) =
        Fin (min 100 ((if length [0x41 :: byte, 0x41, 0x41] > 100 then 25 else 0) +
                      (if printableFraction [0x41, 0x41, 0x41] > 0.3 then 25 else 0) +
                      (if shannonEntropy (log 2) [0x41, 0x41, 0x41] > 6.5 then 25 else 0) +
                      (if findSignature [0x41, 0x41, 0x41] \<noteq> None then 30 else 0)))"
    by blast
  then show ?thesis unfolding e p s by simp
qed

section \<open>The tail region, verified\<close>

lemma occursAt_eoi:
  "0 \<le> i \<Longrightarrow> occursAt eoiMarker view (nat i) \<longleftrightarrow>
     byteAt view (nat i) = Some 0xFF \<and> byteAt view (nat (i + 1)) = Some 0xD9"
  using matchFrom_occursAt [of view "nat i" eoiMarker, symmetric]
  by (auto simp: eoiMarker_def nat_add_distrib)

lemma occursAt_iend:
  "0 \<le> i \<Longrightarrow> occursAt iendTag view (nat (i + 4)) \<longleftrightarrow>
     byteAt view (nat (i + 4)) = Some 0x49 \<and> byteAt view (nat (i + 5)) = Some 0x45 \<and>
     byteAt view (nat (i + 6)) = Some 0x4E \<and> byteAt view (nat (i + 7)) = Some 0x44"
proof -
  assume i: "0 \<le> i"
  then have n: "nat (i + 5) = nat (i + 4) + 1" "nat (i + 6) = nat (i + 4) + 1 + 1"
    "nat (i + 7) = nat (i + 4) + 1 + 1 + 1" by simp_all
  show ?thesis
    unfolding n using matchFrom_occursAt [of view "nat (i + 4)" iendTag, symmetric]
    by (auto simp: iendTag_def)
qed

lemma jpgScan_none:
  "(\<forall>j. \<not> occursAt eoiMarker view j) \<Longrightarrow> jpgScan view i = -1"
proof (induction view i rule: jpgScan.induct)
  case (1 view i)
  show ?case
  proof (cases "i \<ge> 0")
    case False
    then show ?thesis by (simp add: jpgScan.simps [of view i])
  next
    case True
    have no: "\<not> (byteAt view (nat i) = Some 0xFF \<and> byteAt view (nat (i + 1)) = Some 0xD9)"
      using "1.prems" occursAt_eoi [OF True, of view] by blast
    then have "jpgScan view (i - 1) = -1"
      using True "1.prems" by (intro "1.IH") auto
    with True no show ?thesis by (simp add: jpgScan.simps [of view i])
  qed
qed

lemma pngScan_none:
  "(\<forall>j. \<not> occursAt iendTag view j) \<Longrightarrow> pngScan view i = -1"
proof (induction view i rule: pngScan.induct)
  case (1 view i)
  show ?case
  proof (cases "i \<ge> 0")
    case False
    then show ?thesis by (simp add: pngScan.simps [of view i])
  next
    case True
    have no: "\<not> (byteAt view (nat (i + 4)) = Some 0x49 \<and> byteAt view (nat (i + 5)) = Some 0x45 \<and>
     byteAt view (nat (i + 6)) = Some 0x4E \<and> byteAt view (nat (i + 7)) = Some 0x44)"
      using "1.prems" occursAt_iend [OF True, of view] by blast
    then have "pngScan view (i - 1) = -1"
      using True "1.prems" by (intro "1.IH") auto
    with True no show ?thesis by (simp add: pngScan.simps [of view i])
  qed
qed

lemma pngScan_found:
  "0 \<le> k \<Longrightarrow> k \<le> i \<Longrightarrow> occursAt iendTag view (nat (k + 4)) \<Longrightarrow>
   (\<forall>j. k < j \<and> j \<le> i \<longrightarrow> \<not> occursAt iendTag view (nat (j + 4))) \<Longrightarrow>
   pngScan view i = k + 12"
proof (induction view i rule: pngScan.induct)
  case (1 view i)
  have i0: "0 \<le> i" using "1.prems" by simp
  show ?case
  proof (cases "i = k")
    case True
    then show ?thesis
      using "1.prems"(3) occursAt_iend [OF "1.prems"(1), of view]
      by (simp add: pngScan.simps [of view k] "1.prems"(1))
  next
    case False
    then have lt: "k < i" using "1.prems" by simp
    then have "\<not> occursAt iendTag view (nat (i + 4))" using "1.prems" by simp
    then have no: "\<not> (byteAt view (nat (i + 4)) = Some 0x49 \<and> byteAt view (nat (i + 5)) = Some 0x45 \<and>
     byteAt view (nat (i + 6)) = Some 0x4E \<and> byteAt view (nat (i + 7)) = Some 0x44)"
      using occursAt_iend [OF i0, of view] by blast
    then have "pngScan view (i - 1) = k + 12"
      using i0 lt "1.prems" by (intro "1.IH") auto
    with i0 no show ?thesis by (auto simp: pngScan.simps [of view i])
  qed
qed

lemma isJPG_isPNG: "isJPG view \<Longrightarrow> \<not> isPNG view"
  by (auto simp: isJPG_def isPNG_def)

text \<open>
  Claim C5. When the end offset that the format gives lies strictly between 0 and the
  length of the buffer, the tail is the suffix from that offset on, and its length is
  the length of the buffer minus the offset; otherwise the tail is empty, in particular
  for a buffer of unknown format and for one without the marker of its format.
\<close>

theorem tailRegion_suffix:
  "(0 < eofIndex view \<and> eofIndex view < int (length view) \<longrightarrow>
      tailRegion view = drop (nat (eofIndex view)) view \<and>
      int (length (tailRegion view)) = int (length view) - eofIndex view) \<and>
   (\<not> (0 < eofIndex view \<and> eofIndex view < int (length view)) \<longrightarrow> tailRegion view = []) \<and>
   (\<not> isJPG view \<and> \<not> isPNG view \<longrightarrow> eofIndex view = -1 \<and> tailRegion view = []) \<and>
   (isJPG view \<and> (\<forall>j. \<not> occursAt eoiMarker view j) \<longrightarrow>
      eofIndex view = -1 \<and> tailRegion view = []) \<and>
   (isPNG view \<and> (\<forall>j. \<not> occursAt iendTag view j) \<longrightarrow>
      eofIndex view = -1 \<and> tailRegion view = [])"
proof (intro conjI impI)
  assume "isJPG view \<and> (\<forall>j. \<not> occursAt eoiMarker view j)"
  then have "eofIndex view = -1" by (simp add: eofIndex_def jpgScan_none)
  then show "eofIndex view = -1" "tailRegion view = []" by (simp_all add: tailRegion_def)
next
  assume h: "isPNG view \<and> (\<forall>j. \<not> occursAt iendTag view j)"
  then have "\<not> isJPG view" using isJPG_isPNG by blast
  with h have "eofIndex view = -1" by (simp add: eofIndex_def pngScan_none)
  then show "eofIndex view = -1" "tailRegion view = []" by (simp_all add: tailRegion_def)
next
  assume "\<not> isJPG view \<and> \<not> isPNG view"
  then have "eofIndex view = -1" by (simp add: eofIndex_def)
  then show "eofIndex view = -1" "tailRegion view = []" by (simp_all add: tailRegion_def)
next
  assume h: "0 < eofIndex view \<and> eofIndex view < int (length view)"
  then show "tailRegion view = drop (nat (eofIndex view)) view"
    by (simp add: tailRegion_def Let_def)
  from h show "int (length (tailRegion view)) = int (length view) - eofIndex view"
    by (simp add: tailRegion_def Let_def, linarith)
next
  assume "\<not> (0 < eofIndex view \<and> eofIndex view < int (length view))"
  then show "tailRegion view = []"
    by (auto simp: tailRegion_def Let_def)
qed

lemma jpegWithTail_eof: "eofIndex jpegWithTail = 7"
  by (simp add: eofIndex_def isJPG_def jpegWithTail_def byteAt_def jpgScan.simps)

theorem tailRegion_suffix_witness:
  "eofIndex jpegWithTail = 7 \<and> 0 < eofIndex jpegWithTail \<and>
   eofIndex jpegWithTail < int (length jpegWithTail) \<and>
   tailRegion jpegWithTail = [0x68, 0x69] \<and> length (tailRegion jpegWithTail) = 2 \<and>
   tailRegion [0x47, 0x49, 0x46, 0x38] = []"
proof -
  have a: "0 < eofIndex jpegWithTail \<and> eofIndex jpegWithTail < int (length jpegWithTail)"
    by (simp add: jpegWithTail_eof) (simp add: jpegWithTail_def)
  have b: "\<not> isJPG [0x47, 0x49, 0x46, 0x38] \<and> \<not> isPNG [0x47, 0x49, 0x46, 0x38]"
    by (simp add: isJPG_def isPNG_def byteAt_def)
  from a tailRegion_suffix [of jpegWithTail]
  have "tailRegion jpegWithTail = drop (nat (eofIndex jpegWithTail)) jpegWithTail" by blast
  then have c: "tailRegion jpegWithTail = [0x68, 0x69]"
    by (simp add: jpegWithTail_eof) (simp add: jpegWithTail_def)
  from b tailRegion_suffix [of "[0x47, 0x49, 0x46, 0x38]"]
  have "tailRegion [0x47, 0x49, 0x46, 0x38] = []" by blast
  with a c show ?thesis by (simp add: jpegWithTail_eof)
qed

section \<open>The tail of a PNG, verified\<close>

lemma png_isPNG: "isPNG (pngSignature @ rest)" and png_not_isJPG: "\<not> isJPG (pngSignature @ rest)"
  by (simp_all add: isPNG_def isJPG_def pngSignature_def byteAt_def)

lemma occursAt_append_right:
  "length a \<le> q \<Longrightarrow> occursAt pat (a @ b) q \<longleftrightarrow> occursAt pat b (q - length a)"
  by (simp add: occursAt_def)

lemma occursAt_iendChunk: "occursAt iendTag (a @ iendChunk @ rest) (length a + 4)"
  by (simp add: occursAt_def iendTag_def iendChunk_def)

lemma iendChunk_tail_bytes:
  "5 \<le> k \<Longrightarrow> k < 12 \<Longrightarrow> (iendChunk @ rest) ! k \<noteq> 0x49"
proof -
  assume "5 \<le> k" "k < 12"
  then have "k = 5 \<or> k = 6 \<or> k = 7 \<or> k = 8 \<or> k = 9 \<or> k = 10 \<or> k = 11" by arith
  then show ?thesis by (auto simp: iendChunk_def)
qed

lemma no_tag_after_chunk:
  assumes "\<forall>q. q + 8 \<le> length rest \<longrightarrow> \<not> occursAt iendTag rest q"
    and "length a + 4 < q" "q + 8 \<le> length (a @ iendChunk @ rest)"
  shows "\<not> occursAt iendTag (a @ iendChunk @ rest) q"
proof (cases "length a + 12 \<le> q")
  case True
  have l: "length (a @ iendChunk) = length a + 12" by (simp add: iendChunk_def)
  have "occursAt iendTag ((a @ iendChunk) @ rest) q \<longleftrightarrow> occursAt iendTag rest (q - (length a + 12))"
    using True l occursAt_append_right [of "a @ iendChunk" q iendTag rest] by simp
  moreover have "(q - (length a + 12)) + 8 \<le> length rest"
    using True assms(3) l by simp
  ultimately show ?thesis using assms(1) by simp
next
  case False
  then have k: "5 \<le> q - length a" "q - length a < 12" using assms(2) by simp_all
  have "(a @ iendChunk @ rest) ! q = (iendChunk @ rest) ! (q - length a)"
    using assms(2) by (simp add: nth_append)
  then have "(a @ iendChunk @ rest) ! q \<noteq> 0x49"
    using iendChunk_tail_bytes [OF k] by simp
  then show ?thesis
    using occursAt_first [of "0x49" "[0x45, 0x4E, 0x44]" "a @ iendChunk @ rest" q]
    by (auto simp: iendTag_def)
qed

lemma eofIndex_png:
  assumes "\<forall>q. q + 8 \<le> length rest \<longrightarrow> \<not> occursAt iendTag rest q"
  shows "eofIndex (pngSignature @ body @ iendChunk @ rest)
    = int (length (pngSignature @ body @ iendChunk))"
proof -
  let ?a = "pngSignature @ body"
  let ?view = "?a @ iendChunk @ rest"
  let ?k = "int (length ?a)"
  have len: "int (length ?view) = ?k + 12 + int (length rest)" by (simp add: iendChunk_def)
  have "pngScan ?view (int (length ?view) - 12) = ?k + 12"
  proof (rule pngScan_found)
    show "0 \<le> ?k" by simp
    show "?k \<le> int (length ?view) - 12" using len by simp
    show "occursAt iendTag ?view (nat (?k + 4))"
      using occursAt_iendChunk [of ?a rest] by (simp add: nat_add_distrib)
    show "\<forall>j. ?k < j \<and> j \<le> int (length ?view) - 12 \<longrightarrow> \<not> occursAt iendTag ?view (nat (j + 4))"
    proof (intro allI impI)
      fix j assume j: "?k < j \<and> j \<le> int (length ?view) - 12"
      have "length ?a + 4 < nat (j + 4)" using j by linarith
      moreover have "nat (j + 4) + 8 \<le> length ?view" using j by linarith
      ultimately show "\<not> occursAt iendTag ?view (nat (j + 4))"
        using assms by (intro no_tag_after_chunk) 
    qed
  qed
  then show ?thesis
    using png_isPNG [of "body @ iendChunk @ rest"] png_not_isJPG [of "body @ iendChunk @ rest"]
    by (simp add: eofIndex_def iendChunk_def)
qed

lemma tailRegion_png:
  assumes "\<forall>q. q + 8 \<le> length rest \<longrightarrow> \<not> occursAt iendTag rest q"
  shows "tailRegion (pngSignature @ body @ iendChunk @ rest) = rest"
proof -
  define p where "p = pngSignature @ body @ iendChunk"
  have e: "eofIndex (p @ rest) = int (length p)"
    using eofIndex_png [OF assms, of body] by (simp add: p_def)
  have pos: "0 < length p" by (simp add: p_def pngSignature_def)
  have "tailRegion (p @ rest) = rest"
    unfolding tailRegion_def Let_def e using pos by (cases "rest = []") simp_all
  then show ?thesis by (simp add: p_def)
qed

lemma analyzeTail_long_printable:
  assumes "100 < length t" "\<forall>b\<in>set t. 32 \<le> b \<and> b \<le> 126"
  shows "\<exists>s. score (analyzeTail lg t) = Fin s \<and> 50 \<le> s"
proof -
  have ne: "t \<noteq> []" using assms(1) by auto
  have p: "printableFraction t = 1" using ne assms(2) by (rule printableFraction_all)
  show ?thesis using assms(1) ne by (simp add: analyzeTail_def Let_def p)
qed

text \<open>
  Claim C6, amended. A PNG that ends with its IEND chunk (the signature, any chunks, the
  IEND chunk, no byte after it) has a tail of length 0 and the tail sub-score 0. With
  200 more bytes after the IEND chunk, all printable (32 to 126) and without the tag
  IEND starting at any of the offsets 0 to 192 among them, the tail is these 200 bytes
  and the tail sub-score is at least 50.
\<close>

theorem png_tail:
  "(\<forall>body. tailRegion (pngSignature @ body @ iendChunk) = [] \<and>
      length (tailRegion (pngSignature @ body @ iendChunk)) = 0 \<and>
      score (analyzeTail lg (tailRegion (pngSignature @ body @ iendChunk))) = Fin 0) \<and>
   (\<forall>body extra. length extra = 200 \<and> (\<forall>b\<in>set extra. 32 \<le> b \<and> b \<le> 126) \<and>
      (\<forall>q. q \<le> 192 \<longrightarrow> \<not> occursAt iendTag extra q) \<longrightarrow>
      tailRegion (pngSignature @ body @ iendChunk @ extra) = extra \<and>
      length (tailRegion (pngSignature @ body @ iendChunk @ extra)) = 200 \<and>
      (\<exists>s. score (analyzeTail lg (tailRegion (pngSignature @ body @ iendChunk @ extra))) = Fin s \<and>
           50 \<le> s))"
proof (intro conjI allI impI)
  fix body :: "byte list"
  have "tailRegion (pngSignature @ body @ iendChunk @ []) = []"
    by (rule tailRegion_png) simp
  then show "tailRegion (pngSignature @ body @ iendChunk) = []" by simp
  then show "length (tailRegion (pngSignature @ body @ iendChunk)) = 0"
    and "score (analyzeTail lg (tailRegion (pngSignature @ body @ iendChunk))) = Fin 0"
    by (simp_all add: analyzeTail_def)
next
  fix body extra :: "byte list"
  assume h: "length extra = 200 \<and> (\<forall>b\<in>set extra. 32 \<le> b \<and> b \<le> 126) \<and>
      (\<forall>q. q \<le> 192 \<longrightarrow> \<not> occursAt iendTag extra q)"
  then have "\<forall>q. q + 8 \<le> length extra \<longrightarrow> \<not> occursAt iendTag extra q" by simp
  then have t: "tailRegion (pngSignature @ body @ iendChunk @ extra) = extra"
    by (rule tailRegion_png)
  then show "tailRegion (pngSignature @ body @ iendChunk @ extra) = extra" .
  from t h show "length (tailRegion (pngSignature @ body @ iendChunk @ extra)) = 200" by simp
  from h have "\<exists>s. score (analyzeTail lg extra) = Fin s \<and> 50 \<le> s"
    by (intro analyzeTail_long_printable) simp_all
  then show "\<exists>s. score (analyzeTail lg (tailRegion (pngSignature @ body @ iendChunk @ extra))) = Fin s \<and>
           50 \<le> s"
    unfolding t .
qed

lemma replicate_no_iend: "\<not> occursAt iendTag (replicate n 0x41) q"
  using occursAt_first [of "0x49" "[0x45, 0x4E, 0x44]" "replicate n 0x41" q]
  by (auto simp: iendTag_def)

theorem png_tail_witness:
  "tailRegion minimalPNG = [] \<and> score (analyzeTail (log 2) (tailRegion minimalPNG)) = Fin 0 \<and>
   tailRegion (minimalPNG @ replicate 200 0x41) = replicate 200 0x41 \<and>
   length (tailRegion (minimalPNG @ replicate 200 0x41)) = 200 \<and>
   (\<exists>s. score (analyzeTail (log 2) (tailRegion (minimalPNG @ replicate 200 0x41))) = Fin s \<and> 50 \<le> s)"
proof -
  have h: "length (replicate 200 (0x41::byte)) = 200 \<and>
      (\<forall>b\<in>set (replicate 200 (0x41::byte)). 32 \<le> b \<and> b \<le> 126) \<and>
      (\<forall>q. q \<le> 192 \<longrightarrow> \<not> occursAt iendTag (replicate 200 0x41) q)"
    by (simp add: replicate_no_iend)
  from png_tail [of "log 2"] have
    a: "tailRegion (pngSignature @ minimalBody @ iendChunk) = [] \<and>
      score (analyzeTail (log 2) (tailRegion (pngSignature @ minimalBody @ iendChunk))) = Fin 0"
    by blast
  from png_tail [of "log 2"] h have
    b: "tailRegion (pngSignature @ minimalBody @ iendChunk @ replicate 200 0x41) = replicate 200 0x41 \<and>
      length (tailRegion (pngSignature @ minimalBody @ iendChunk @ replicate 200 0x41)) = 200 \<and>
      (\<exists>s. score (analyzeTail (log 2) (tailRegion (pngSignature @ minimalBody @ iendChunk @ replicate 200 0x41))) = Fin s \<and>
           50 \<le> s)"
    by blast
  from a b show ?thesis unfolding minimalPNG_def append_assoc by blast
qed

lemma hiddenIEND_printable: "length hiddenIEND = 200 \<and> (\<forall>b\<in>set hiddenIEND. 32 \<le> b \<and> b \<le> 126)"
  by (auto simp: hiddenIEND_def)

lemma minimalPNG_length: "length minimalPNG = 67"
  by (simp add: minimalPNG_def pngSignature_def minimalBody_def iendChunk_def)

lemma hiddenIEND_eof: "eofIndex (minimalPNG @ hiddenIEND) = 267"
proof -
  have v: "minimalPNG @ hiddenIEND = (minimalPNG @ replicate 192 0x41) @ [0x49, 0x45, 0x4E, 0x44] @ replicate 4 0x41"
    by (simp add: hiddenIEND_def)
  have l: "length (minimalPNG @ replicate 192 (0x41::byte)) = 259" by (simp add: minimalPNG_length)
  have "occursAt iendTag ([0x49, 0x45, 0x4E, 0x44] @ replicate 4 0x41) (259 - 259)"
    by (simp add: occursAt_def iendTag_def)
  then have o: "occursAt iendTag (minimalPNG @ hiddenIEND) 259"
    unfolding v using occursAt_append_right [of "minimalPNG @ replicate 192 0x41" 259 iendTag]
    by (simp only: l le_refl)
  have "pngScan (minimalPNG @ hiddenIEND) 255 = 255 + 12"
  proof (rule pngScan_found)
    show "(0::int) \<le> 255" and "(255::int) \<le> 255" by simp_all
    show "occursAt iendTag (minimalPNG @ hiddenIEND) (nat (255 + 4))" using o by simp
    show "\<forall>j. 255 < j \<and> j \<le> 255 \<longrightarrow> \<not> occursAt iendTag (minimalPNG @ hiddenIEND) (nat (j + 4))"
      by linarith
  qed
  moreover have "int (length (minimalPNG @ hiddenIEND)) - 12 = 255"
    by (simp add: minimalPNG_length hiddenIEND_def)
  moreover have "isPNG (minimalPNG @ hiddenIEND)" "\<not> isJPG (minimalPNG @ hiddenIEND)"
    using png_isPNG [of "minimalBody @ iendChunk @ hiddenIEND"]
      png_not_isJPG [of "minimalBody @ iendChunk @ hiddenIEND"]
    by (simp_all add: minimalPNG_def)
  ultimately show ?thesis by (simp add: eofIndex_def)
qed

text \<open>Without the condition on the tag the statement of C6 fails. The backward scan stops
  at the last tag IEND of the buffer: when the 200 bytes hold it at offset 192, the end
  offset is the length of the buffer and the tail is empty.\<close>

theorem png_tail_counterexample:
  "\<not> (\<forall>lg extra. length extra = 200 \<and> (\<forall>b\<in>set extra. 32 \<le> b \<and> b \<le> 126) \<longrightarrow>
        length (tailRegion (minimalPNG @ extra)) = 200 \<and>
        (\<exists>s. score (analyzeTail lg (tailRegion (minimalPNG @ extra))) = Fin s \<and> 50 \<le> s))"
proof
  assume a: "\<forall>lg extra. length extra = 200 \<and> (\<forall>b\<in>set extra. 32 \<le> b \<and> b \<le> 126) \<longrightarrow>
        length (tailRegion (minimalPNG @ extra)) = 200 \<and>
        (\<exists>s. score (analyzeTail lg (tailRegion (minimalPNG @ extra))) = Fin s \<and> 50 \<le> s)"
  have "tailRegion (minimalPNG @ hiddenIEND) = []"
    by (simp add: tailRegion_def hiddenIEND_eof) (simp add: minimalPNG_length hiddenIEND_def)
  with a hiddenIEND_printable show False by fastforce
qed

end
